theory Spec2Isabelle
  imports Complex_Main "HOL-Library.Multiset"
begin

section \<open>JavaScript numbers and property values\<close>

text \<open>
  The plan service works on plain JavaScript objects whose numeric properties are
  IEEE doubles. A number is modelled as an exact rational extended with the two
  infinities and NaN: rounding is not modelled and the two zeros are identified.
  A property that is absent (\<open>undefined\<close>) is \<open>None\<close>.
\<close>

datatype jsnum = Num rat | PInf | NInf | NaN

type_synonym jsval = "jsnum option"

text \<open>\<open>ToNumber\<close>: \<open>undefined\<close> becomes NaN in arithmetic.\<close>

fun to_num :: "jsval \<Rightarrow> jsnum" where
  "to_num None = NaN"
| "to_num (Some x) = x"

fun js_neg :: "jsnum \<Rightarrow> jsnum" where
  "js_neg (Num a) = Num (- a)"
| "js_neg PInf = NInf"
| "js_neg NInf = PInf"
| "js_neg NaN = NaN"

fun js_add :: "jsnum \<Rightarrow> jsnum \<Rightarrow> jsnum" where
  "js_add (Num a) (Num b) = Num (a + b)"
| "js_add NaN _ = NaN"
| "js_add _ NaN = NaN"
| "js_add PInf NInf = NaN"
| "js_add NInf PInf = NaN"
| "js_add PInf _ = PInf"
| "js_add NInf _ = NInf"
| "js_add _ PInf = PInf"
| "js_add _ NInf = NInf"

definition js_sub :: "jsnum \<Rightarrow> jsnum \<Rightarrow> jsnum" where
  "js_sub a b = js_add a (js_neg b)"

text \<open>The sign of an infinite product or quotient.\<close>

definition signed_inf :: "bool \<Rightarrow> jsnum" where
  "signed_inf positive = (if positive then PInf else NInf)"

fun js_mul :: "jsnum \<Rightarrow> jsnum \<Rightarrow> jsnum" where
  "js_mul (Num a) (Num b) = Num (a * b)"
| "js_mul NaN _ = NaN"
| "js_mul _ NaN = NaN"
| "js_mul PInf (Num b) = (if b = 0 then NaN else signed_inf (0 < b))"
| "js_mul NInf (Num b) = (if b = 0 then NaN else signed_inf (b < 0))"
| "js_mul (Num a) PInf = (if a = 0 then NaN else signed_inf (0 < a))"
| "js_mul (Num a) NInf = (if a = 0 then NaN else signed_inf (a < 0))"
| "js_mul PInf PInf = PInf"
| "js_mul NInf NInf = PInf"
| "js_mul PInf NInf = NInf"
| "js_mul NInf PInf = NInf"

fun js_div :: "jsnum \<Rightarrow> jsnum \<Rightarrow> jsnum" where
  "js_div (Num a) (Num b) =
     (if b = 0 then (if a = 0 then NaN else signed_inf (0 < a)) else Num (a / b))"
| "js_div NaN _ = NaN"
| "js_div _ NaN = NaN"
| "js_div (Num a) PInf = Num 0"
| "js_div (Num a) NInf = Num 0"
| "js_div PInf (Num b) = signed_inf (0 \<le> b)"
| "js_div NInf (Num b) = signed_inf (b < 0)"
| "js_div PInf PInf = NaN"
| "js_div PInf NInf = NaN"
| "js_div NInf PInf = NaN"
| "js_div NInf NInf = NaN"

text \<open>The relational operator \<open><\<close>; any comparison with NaN is false.\<close>

fun js_lt :: "jsnum \<Rightarrow> jsnum \<Rightarrow> bool" where
  "js_lt (Num a) (Num b) = (a < b)"
| "js_lt NaN _ = False"
| "js_lt _ NaN = False"
| "js_lt NInf NInf = False"
| "js_lt NInf _ = True"
| "js_lt _ NInf = False"
| "js_lt PInf _ = False"
| "js_lt _ PInf = True"

definition js_gt :: "jsnum \<Rightarrow> jsnum \<Rightarrow> bool" where
  "js_gt a b = js_lt b a"

text \<open>\<open>a >= b\<close> of JavaScript: \<open>b < a\<close> or equal, and false on NaN.\<close>

definition js_ge :: "jsnum \<Rightarrow> jsnum \<Rightarrow> bool" where
  "js_ge a b = (a \<noteq> NaN \<and> b \<noteq> NaN \<and> \<not> js_lt a b)"

text \<open>Truthiness of a numeric property: \<open>undefined\<close>, 0 and NaN are falsy.\<close>

fun truthy :: "jsval \<Rightarrow> bool" where
  "truthy None = False"
| "truthy (Some (Num a)) = (a \<noteq> 0)"
| "truthy (Some NaN) = False"
| "truthy (Some _) = True"

text \<open>\<open>a || b\<close> on numeric properties.\<close>

definition js_or :: "jsval \<Rightarrow> jsval \<Rightarrow> jsval" where
  "js_or a b = (if truthy a then a else b)"

section \<open>Plan nodes\<close>

text \<open>
  \<open>NodeProp\<close> lists the numeric node properties the enrichment pass reads or
  writes; a node carries them as a bag indexed by property, as the source indexes
  \<open>node[NodeProp.X]\<close>. The textual properties are separate fields.
\<close>

datatype NodeProp =
    STARTUP_COST | TOTAL_COST | PLAN_ROWS | PLAN_WIDTH
  | ACTUAL_STARTUP_TIME | ACTUAL_TOTAL_TIME | ACTUAL_ROWS | ACTUAL_LOOPS
  | ROWS_REMOVED_BY_FILTER | ROWS_REMOVED_BY_JOIN_FILTER
  | WORKERS_PLANNED | WORKERS_PLANNED_BY_GATHER
  | PLANNER_ESTIMATE_FACTOR | EXCLUSIVE_DURATION | EXCLUSIVE_COST
  | ACTUAL_ROWS_REVISED | PLAN_ROWS_REVISED
  | ROWS_REMOVED_BY_FILTER_REVISED | ROWS_REMOVED_BY_JOIN_FILTER_REVISED
  | SHARED_HIT_BLOCKS | SHARED_READ_BLOCKS | SHARED_DIRTIED_BLOCKS | SHARED_WRITTEN_BLOCKS
  | TEMP_READ_BLOCKS | TEMP_WRITTEN_BLOCKS
  | LOCAL_HIT_BLOCKS | LOCAL_READ_BLOCKS | LOCAL_DIRTIED_BLOCKS | LOCAL_WRITTEN_BLOCKS
  | IO_READ_TIME | IO_WRITE_TIME
  | EXCLUSIVE_SHARED_HIT_BLOCKS | EXCLUSIVE_SHARED_READ_BLOCKS
  | EXCLUSIVE_SHARED_DIRTIED_BLOCKS | EXCLUSIVE_SHARED_WRITTEN_BLOCKS
  | EXCLUSIVE_TEMP_READ_BLOCKS | EXCLUSIVE_TEMP_WRITTEN_BLOCKS
  | EXCLUSIVE_LOCAL_HIT_BLOCKS | EXCLUSIVE_LOCAL_READ_BLOCKS
  | EXCLUSIVE_LOCAL_DIRTIED_BLOCKS | EXCLUSIVE_LOCAL_WRITTEN_BLOCKS
  | EXCLUSIVE_IO_READ_TIME | EXCLUSIVE_IO_WRITE_TIME

datatype EstimateDirection = over | under | none

record node_props =
  node_type :: string
  nodeId :: "nat option"
  parent_relationship :: "string option"
  subplan_name :: "string option"
  planner_estimate_direction :: "EstimateDirection option"
  num :: "NodeProp \<Rightarrow> jsval"

text \<open>A node with its children (\<open>Plans\<close>); an absent \<open>Plans\<close> is the empty list.\<close>

datatype node = Node (props: node_props) (Plans: "node list")

definition getp :: "node_props \<Rightarrow> NodeProp \<Rightarrow> jsval" where
  "getp p k = num p k"

definition setp :: "node_props \<Rightarrow> NodeProp \<Rightarrow> jsval \<Rightarrow> node_props" where
  "setp p k v = p\<lparr>num := (num p)(k := v)\<rparr>"

section \<open>The enrichment pass\<close>

subsection \<open>calculatePlannerEstimate\<close>

definition calculatePlannerEstimate :: "node_props \<Rightarrow> node_props" where
  "calculatePlannerEstimate p =
     (if getp p ACTUAL_ROWS = None then p
      else
        let p1 = setp p PLANNER_ESTIMATE_FACTOR
                   (Some (js_div (to_num (getp p ACTUAL_ROWS)) (to_num (getp p PLAN_ROWS))));
            p2 = p1\<lparr>planner_estimate_direction := Some none\<rparr>;
            p3 = (if js_gt (to_num (getp p2 ACTUAL_ROWS)) (to_num (getp p2 PLAN_ROWS))
                  then p2\<lparr>planner_estimate_direction := Some under\<rparr> else p2)
        in if js_lt (to_num (getp p3 ACTUAL_ROWS)) (to_num (getp p3 PLAN_ROWS))
           then setp (p3\<lparr>planner_estimate_direction := Some over\<rparr>) PLANNER_ESTIMATE_FACTOR
                  (Some (js_div (to_num (getp p3 PLAN_ROWS)) (to_num (getp p3 ACTUAL_ROWS))))
           else p3)"


subsection \<open>isCTE\<close>

text \<open>
  \<open>_.startsWith(undefined, 'CTE')\<close> is false: lodash turns an absent string into
  the empty one.
\<close>

definition startsWith :: "string option \<Rightarrow> string \<Rightarrow> bool" where
  "startsWith s target =
     (case s of None \<Rightarrow> target = [] | Some t \<Rightarrow> take (length target) t = target)"

definition isCTE :: "node_props \<Rightarrow> bool" where
  "isCTE p \<longleftrightarrow> parent_relationship p = Some ''InitPlan'' \<and> startsWith (subplan_name p) ''CTE''"

subsection \<open>calculateActuals and childrenDuration\<close>

text \<open>
  \<open>childrenDuration\<close> walks every descendant that is not below an InitPlan child;
  \<open>childrenDuration_each\<close> is its \<open>_.each\<close> loop over \<open>Plans\<close>, the running
  total being the local variable \<open>duration\<close>.
\<close>

fun childrenDuration :: "node \<Rightarrow> jsnum \<Rightarrow> jsnum"
  and childrenDuration_each :: "node list \<Rightarrow> jsnum \<Rightarrow> jsnum" where
  "childrenDuration (Node p cs) duration = childrenDuration_each cs duration"
| "childrenDuration_each [] duration = duration"
| "childrenDuration_each (child # rest) duration =
     (if parent_relationship (props child) \<noteq> Some ''InitPlan''
      then childrenDuration_each rest
             (childrenDuration child
                (js_add duration
                   (to_num (js_or (getp (props child) EXCLUSIVE_DURATION) (Some (Num 0))))))
      else childrenDuration_each rest duration)"

text \<open>\<open>prop + '_REVISED'\<close>, for the four row counters the loop runs over.\<close>

fun revised :: "NodeProp \<Rightarrow> NodeProp" where
  "revised ACTUAL_ROWS = ACTUAL_ROWS_REVISED"
| "revised PLAN_ROWS = PLAN_ROWS_REVISED"
| "revised ROWS_REMOVED_BY_FILTER = ROWS_REMOVED_BY_FILTER_REVISED"
| "revised ROWS_REMOVED_BY_JOIN_FILTER = ROWS_REMOVED_BY_JOIN_FILTER_REVISED"
| "revised k = k"

definition scale_by_loops :: "node_props \<Rightarrow> NodeProp \<Rightarrow> jsnum \<Rightarrow> node_props" where
  "scale_by_loops p k workers =
     setp p k (Some (js_div (js_mul (to_num (getp p k)) (to_num (getp p ACTUAL_LOOPS))) workers))"

definition actual_duration :: "node_props \<Rightarrow> node list \<Rightarrow> node_props" where
  "actual_duration p cs =
     (if getp p ACTUAL_TOTAL_TIME \<noteq> None then
        let workers = js_add (to_num (js_or (getp p WORKERS_PLANNED_BY_GATHER) (Some (Num 0)))) (Num 1);
            p1 = scale_by_loops p ACTUAL_TOTAL_TIME workers;
            p2 = scale_by_loops p1 ACTUAL_STARTUP_TIME workers;
            p3 = setp p2 EXCLUSIVE_DURATION (getp p2 ACTUAL_TOTAL_TIME);
            duration = js_sub (to_num (getp p3 EXCLUSIVE_DURATION)) (childrenDuration (Node p3 cs) (Num 0))
        in setp p3 EXCLUSIVE_DURATION (Some (if js_gt duration (Num 0) then duration else Num 0))
      else p)"

definition subtract_cost :: "node \<Rightarrow> node_props \<Rightarrow> node_props" where
  "subtract_cost subPlan p =
     (if parent_relationship (props subPlan) \<noteq> Some ''InitPlan''
         \<and> truthy (getp (props subPlan) TOTAL_COST)
      then setp p EXCLUSIVE_COST
             (Some (js_sub (to_num (getp p EXCLUSIVE_COST)) (to_num (getp (props subPlan) TOTAL_COST))))
      else p)"

definition actual_cost :: "node_props \<Rightarrow> node list \<Rightarrow> node_props" where
  "actual_cost p cs =
     (let p1 = (if truthy (getp p TOTAL_COST) then setp p EXCLUSIVE_COST (getp p TOTAL_COST) else p);
          p2 = fold subtract_cost cs p1
      in if js_lt (to_num (getp p2 EXCLUSIVE_COST)) (Num 0)
         then setp p2 EXCLUSIVE_COST (Some (Num 0)) else p2)"

definition revise :: "NodeProp \<Rightarrow> node_props \<Rightarrow> node_props" where
  "revise prop p =
     (if getp p prop \<noteq> None then
        let loops = js_or (getp p ACTUAL_LOOPS) (Some (Num 1))
        in setp p (revised prop) (Some (js_mul (to_num (getp p prop)) (to_num loops)))
      else p)"

definition calculateActuals :: "node \<Rightarrow> node" where
  "calculateActuals n =
     (let cs = Plans n;
          p1 = actual_duration (props n) cs;
          p2 = actual_cost p1 cs;
          p3 = fold revise [ACTUAL_ROWS, PLAN_ROWS, ROWS_REMOVED_BY_FILTER, ROWS_REMOVED_BY_JOIN_FILTER] p2
      in Node p3 cs)"

subsection \<open>calculateExclusives\<close>

definition properties :: "NodeProp list" where
  "properties =
     [SHARED_HIT_BLOCKS, SHARED_READ_BLOCKS, SHARED_DIRTIED_BLOCKS, SHARED_WRITTEN_BLOCKS,
      TEMP_READ_BLOCKS, TEMP_WRITTEN_BLOCKS,
      LOCAL_HIT_BLOCKS, LOCAL_READ_BLOCKS, LOCAL_DIRTIED_BLOCKS, LOCAL_WRITTEN_BLOCKS,
      IO_READ_TIME, IO_WRITE_TIME]"

text \<open>\<open>'EXCLUSIVE_' + property\<close>, for the twelve counters of \<open>properties\<close>.\<close>

fun exclusive :: "NodeProp \<Rightarrow> NodeProp" where
  "exclusive SHARED_HIT_BLOCKS = EXCLUSIVE_SHARED_HIT_BLOCKS"
| "exclusive SHARED_READ_BLOCKS = EXCLUSIVE_SHARED_READ_BLOCKS"
| "exclusive SHARED_DIRTIED_BLOCKS = EXCLUSIVE_SHARED_DIRTIED_BLOCKS"
| "exclusive SHARED_WRITTEN_BLOCKS = EXCLUSIVE_SHARED_WRITTEN_BLOCKS"
| "exclusive TEMP_READ_BLOCKS = EXCLUSIVE_TEMP_READ_BLOCKS"
| "exclusive TEMP_WRITTEN_BLOCKS = EXCLUSIVE_TEMP_WRITTEN_BLOCKS"
| "exclusive LOCAL_HIT_BLOCKS = EXCLUSIVE_LOCAL_HIT_BLOCKS"
| "exclusive LOCAL_READ_BLOCKS = EXCLUSIVE_LOCAL_READ_BLOCKS"
| "exclusive LOCAL_DIRTIED_BLOCKS = EXCLUSIVE_LOCAL_DIRTIED_BLOCKS"
| "exclusive LOCAL_WRITTEN_BLOCKS = EXCLUSIVE_LOCAL_WRITTEN_BLOCKS"
| "exclusive IO_READ_TIME = EXCLUSIVE_IO_READ_TIME"
| "exclusive IO_WRITE_TIME = EXCLUSIVE_IO_WRITE_TIME"
| "exclusive k = k"

text \<open>
  \<open>_.sumBy\<close>: the iteratee's values added from left to right, 0 for no children.
\<close>

definition sumBy :: "node list \<Rightarrow> (node \<Rightarrow> jsnum) \<Rightarrow> jsnum" where
  "sumBy cs f = fold (\<lambda>child acc. js_add acc (f child)) cs (Num 0)"

definition exclusive_of :: "node list \<Rightarrow> NodeProp \<Rightarrow> node_props \<Rightarrow> node_props" where
  "exclusive_of cs property p =
     (let sum = sumBy cs (\<lambda>child. to_num (js_or (getp (props child) property) (Some (Num 0))))
      in setp p (exclusive property) (Some (js_sub (to_num (getp p property)) sum)))"

definition calculateExclusives :: "node \<Rightarrow> node" where
  "calculateExclusives n = Node (fold (exclusive_of (Plans n)) properties (props n)) (Plans n)"

subsection \<open>processNode and createPlan\<close>

text \<open>
  \<open>processNode\<close> mutates the node in place, counts \<open>this.nodeId\<close> up and pushes
  onto \<open>plan.ctes\<close>. The model passes the counter in and returns the node as it
  is after the call, the nodes pushed during the call in push order, and the
  counter. \<open>plan.ctes\<close> holds references: a pushed child is the very object the
  recursive call goes on to process, so its entry shows the processed child and
  stands before the entries pushed below it. \<open>processNode_each\<close> is the
  \<open>_.each\<close> loop over the children of a node with properties \<open>p\<close>.
\<close>

definition disseminate :: "node_props \<Rightarrow> node_props \<Rightarrow> node_props" where
  "disseminate p child =
     (if \<not> isCTE child \<and> parent_relationship child \<noteq> Some ''InitPlan''
         \<and> parent_relationship child \<noteq> Some ''SubPlan''
      then setp child WORKERS_PLANNED_BY_GATHER
             (js_or (getp p WORKERS_PLANNED) (getp p WORKERS_PLANNED_BY_GATHER))
      else child)"

fun processNode :: "nat \<Rightarrow> node \<Rightarrow> node \<times> node list \<times> nat"
  and processNode_each :: "node_props \<Rightarrow> nat \<Rightarrow> node list \<Rightarrow> node list \<times> node list \<times> nat" where
  "processNode nid (Node p cs) =
     (let p1 = calculatePlannerEstimate (p\<lparr>nodeId := Some nid\<rparr>);
          (cs', pushed, nid') = processNode_each p1 (Suc nid) cs;
          kept = filter (\<lambda>child. \<not> isCTE (props child)) cs'
      in (calculateExclusives (calculateActuals (Node p1 kept)), pushed, nid'))"
| "processNode_each p nid [] = ([], [], nid)"
| "processNode_each p nid (Node q gs # rest) =
     (let q1 = disseminate p q;
          (child', below, nid1) = processNode nid (Node q1 gs);
          (rest', pushed, nid2) = processNode_each p nid1 rest
      in (child' # rest', (if isCTE q1 then [child'] else []) @ below @ pushed, nid2))"

record plan =
  content_Plan :: node
  ctes :: "node list"

text \<open>
  \<open>createPlan\<close>, as far as the plan tree goes: the counter starts at 1. The
  maxima that \<open>calculateMaximums\<close> stores on \<open>content\<close> change no node and are
  left out, as are the name, the query and the clock-derived identifier.
\<close>

definition createPlan :: "node \<Rightarrow> plan" where
  "createPlan planContent =
     (let (n, pushed, nid) = processNode 1 planContent
      in \<lparr>content_Plan = n, ctes = pushed\<rparr>)"

text \<open>A node with its type and no other property, for writing plans down.\<close>

definition new_Node :: "string \<Rightarrow> node_props" where
  "new_Node t = \<lparr>node_type = t, nodeId = None, parent_relationship = None, subplan_name = None,
     planner_estimate_direction = None, num = (\<lambda>_. None)\<rparr>"

section \<open>Notions used to state the properties of the enrichment pass\<close>

text \<open>The nodes of a tree in pre-order, and the nodes below its root.\<close>

fun flat :: "node \<Rightarrow> node list" where
  "flat (Node p cs) = Node p cs # concat (map flat cs)"

definition descendants :: "node \<Rightarrow> node list" where
  "descendants n = concat (map flat (Plans n))"

text \<open>
  The nodes whose exclusive duration \<open>childrenDuration\<close> adds up, in the order
  it visits them: every descendant that is not an InitPlan child and is not
  below one.
\<close>

fun counted :: "node \<Rightarrow> node list"
  and counted_each :: "node list \<Rightarrow> node list" where
  "counted (Node p cs) = counted_each cs"
| "counted_each [] = []"
| "counted_each (child # rest) =
     (if parent_relationship (props child) \<noteq> Some ''InitPlan''
      then child # counted child @ counted_each rest
      else counted_each rest)"

text \<open>\<open>child[EXCLUSIVE_DURATION] || 0\<close> and \<open>child[property] || 0\<close>.\<close>

definition duration_of :: "node \<Rightarrow> jsnum" where
  "duration_of child = to_num (js_or (getp (props child) EXCLUSIVE_DURATION) (Some (Num 0)))"

definition counter_of :: "NodeProp \<Rightarrow> node \<Rightarrow> jsnum" where
  "counter_of property child = to_num (js_or (getp (props child) property) (Some (Num 0)))"

text \<open>
  A time of the node multiplied by its loops and divided by the workers of the
  enclosing Gather plus one, and the clamping of a duration at 0.
\<close>

definition scaled :: "node_props \<Rightarrow> NodeProp \<Rightarrow> jsnum" where
  "scaled p k =
     js_div (js_mul (to_num (getp p k)) (to_num (getp p ACTUAL_LOOPS)))
            (js_add (to_num (js_or (getp p WORKERS_PLANNED_BY_GATHER) (Some (Num 0)))) (Num 1))"

definition clamp0 :: "jsnum \<Rightarrow> jsnum" where
  "clamp0 d = (if js_gt d (Num 0) then d else Num 0)"

text \<open>
  A CTE node in the words of the specification: an InitPlan whose subplan name
  starts with \<open>CTE\<close> and a space.
\<close>

definition cte_by_spec :: "node \<Rightarrow> bool" where
  "cte_by_spec n \<longleftrightarrow>
     parent_relationship (props n) = Some ''InitPlan''
       \<and> startsWith (subplan_name (props n)) ''CTE ''"

text \<open>
  What a step may write: \<open>writes S p p'\<close> says that \<open>p'\<close> differs from \<open>p\<close>
  in numeric properties of \<open>S\<close> at most.
\<close>

definition writes :: "NodeProp set \<Rightarrow> node_props \<Rightarrow> node_props \<Rightarrow> bool" where
  "writes S p p' \<longleftrightarrow>
     node_type p' = node_type p \<and> nodeId p' = nodeId p \<and>
     parent_relationship p' = parent_relationship p \<and> subplan_name p' = subplan_name p \<and>
     planner_estimate_direction p' = planner_estimate_direction p \<and>
     (\<forall>k. k \<notin> S \<longrightarrow> getp p' k = getp p k)"

definition duration_keys :: "NodeProp set" where
  "duration_keys = {ACTUAL_TOTAL_TIME, ACTUAL_STARTUP_TIME, EXCLUSIVE_DURATION}"

definition revised_keys :: "NodeProp set" where
  "revised_keys = {ACTUAL_ROWS_REVISED, PLAN_ROWS_REVISED, ROWS_REMOVED_BY_FILTER_REVISED,
     ROWS_REMOVED_BY_JOIN_FILTER_REVISED}"

definition exclusive_keys :: "NodeProp set" where
  "exclusive_keys = exclusive ` set properties"

definition enrich_keys :: "NodeProp set" where
  "enrich_keys = duration_keys \<union> {EXCLUSIVE_COST} \<union> revised_keys \<union> exclusive_keys"

text \<open>
  What identifies a node before and after enrichment: its type and whether it is
  a CTE node beforehand, its identifier and its type afterwards.
\<close>

definition node_key :: "node \<Rightarrow> string \<times> bool" where
  "node_key m = (node_type (props m), isCTE (props m))"

definition node_tag :: "node \<Rightarrow> nat option \<times> string" where
  "node_tag m = (nodeId (props m), node_type (props m))"

definition tag_of :: "nat \<times> string \<times> bool \<Rightarrow> nat option \<times> string" where
  "tag_of e = (Some (fst e), fst (snd e))"

text \<open>
  The children of an enriched node: none is a CTE node, and each one that is
  neither an InitPlan nor a SubPlan has the workers of its parent.
\<close>

definition child_ok :: "node \<Rightarrow> bool" where
  "child_ok m \<longleftrightarrow>
     (\<forall>c \<in> set (Plans m).
        \<not> isCTE (props c) \<and>
        (parent_relationship (props c) \<noteq> Some ''InitPlan'' \<and>
         parent_relationship (props c) \<noteq> Some ''SubPlan'' \<longrightarrow>
         getp (props c) WORKERS_PLANNED_BY_GATHER
           = js_or (getp (props m) WORKERS_PLANNED) (getp (props m) WORKERS_PLANNED_BY_GATHER)))"

text \<open>
  The node of the parsed tree \<open>t\<close> that an enriched node comes from: the
  identifier of an enriched node is the place of its node in the pre-order of
  \<open>t\<close>, counted from 1.
\<close>

definition origin :: "node \<Rightarrow> node \<Rightarrow> node" where
  "origin t m = (case nodeId (props m) of Some i \<Rightarrow> flat t ! (i - 1) | None \<Rightarrow> t)"

subsection \<open>Example plans\<close>

definition with_num :: "node_props \<Rightarrow> (NodeProp \<times> rat) list \<Rightarrow> node_props" where
  "with_num p kvs = fold (\<lambda>kv q. setp q (fst kv) (Some (Num (snd kv)))) kvs p"

text \<open>A scan that returned 5 rows where none was planned, and one planned at 2.\<close>

definition scan_unplanned :: node where
  "scan_unplanned = Node (with_num (new_Node ''Seq Scan'') [(ACTUAL_ROWS, 5), (PLAN_ROWS, 0)]) []"

definition scan_under :: node where
  "scan_under = Node (with_num (new_Node ''Seq Scan'') [(ACTUAL_ROWS, 5), (PLAN_ROWS, 2)]) []"

text \<open>A scan that returned 5 rows and has no estimate, as under \<open>COSTS OFF\<close>.\<close>

definition scan_costs_off :: node where
  "scan_costs_off = Node (with_num (new_Node ''Seq Scan'') [(ACTUAL_ROWS, 5)]) []"

text \<open>A join over a sort over a scan, with total times 10, 5 and 2.\<close>

definition plan_nested :: node where
  "plan_nested =
     Node (with_num (new_Node ''Hash Join'') [(ACTUAL_TOTAL_TIME, 10), (ACTUAL_LOOPS, 1)])
       [Node (with_num (new_Node ''Sort'') [(ACTUAL_TOTAL_TIME, 5), (ACTUAL_LOOPS, 1)])
          [Node (with_num (new_Node ''Seq Scan'') [(ACTUAL_TOTAL_TIME, 2), (ACTUAL_LOOPS, 1)]) []]]"

text \<open>A Gather planned with 3 workers over a node planned with 0 workers over a scan.\<close>

definition plan_gather :: node where
  "plan_gather =
     Node (with_num (new_Node ''Gather'') [(WORKERS_PLANNED, 3)])
       [Node (with_num (new_Node ''Gather Merge'') [(WORKERS_PLANNED, 0)])
          [Node (new_Node ''Seq Scan'') []]]"

text \<open>
  A node with 10 shared hit blocks over a CTE child with 3 and a scan with 4.
\<close>

definition plan_cte :: node where
  "plan_cte =
     Node (with_num (new_Node ''Nested Loop'') [(SHARED_HIT_BLOCKS, 10)])
       [Node (with_num ((new_Node ''Aggregate'')
                 \<lparr>parent_relationship := Some ''InitPlan'', subplan_name := Some ''CTE x''\<rparr>)
               [(SHARED_HIT_BLOCKS, 3)]) [],
        Node (with_num (new_Node ''CTE Scan'') [(SHARED_HIT_BLOCKS, 4)]) []]"

text \<open>
  A node with 2 shared hit blocks over a scan with 5 and an InitPlan that is no
  CTE with 1.
\<close>

definition plan_initplan :: node where
  "plan_initplan =
     Node (with_num (new_Node ''Nested Loop'') [(SHARED_HIT_BLOCKS, 2)])
       [Node (with_num (new_Node ''Seq Scan'') [(SHARED_HIT_BLOCKS, 5)]) [],
        Node (with_num ((new_Node ''Result'')\<lparr>parent_relationship := Some ''InitPlan''\<rparr>)
                [(SHARED_HIT_BLOCKS, 1)]) []]"

section \<open>The tolerant JSON parser\<close>

text \<open>
  \<open>parseJson\<close> installs five handlers on a clarinet stream parser and builds the
  value on a stack of containers. The handlers are modelled as the source writes
  them; what clarinet and lodash do is taken from those libraries (lodash as of
  4.17.21).
\<close>

subsection \<open>JavaScript values built from JSON\<close>

datatype scalar = Null | Bool bool | Number rat | String string

text \<open>
  A container carries the number of its allocation: \<open>duplicated\<close> keeps a
  reference to a value, and \<open>_.merge\<close> changes that very object wherever it sits.
  An object has a flag that tells whether it still has its prototype
  \<open>Object.prototype\<close>, and lists its own properties in the order in which
  JavaScript enumerates them: the array indices in ascending order, then the
  other names in insertion order. An array has its items and, should a merge give
  it any, named properties. \<open>Undefined\<close> is the value \<open>undefined\<close>, which no
  JSON text holds and a merge can leave. The type of the allocation numbers is
  a parameter: with \<open>unit\<close> a value is without them.
\<close>

datatype 'i json =
    Prim scalar
  | Undefined
  | Obj 'i bool "(string \<times> 'i json) list"
  | Arr 'i "'i json list" "(string \<times> 'i json) list"

type_synonym jvalue = "unit json"

abbreviation VObj :: "(string \<times> jvalue) list \<Rightarrow> jvalue" where
  "VObj fs \<equiv> Obj () True fs"

abbreviation VArr :: "jvalue list \<Rightarrow> jvalue" where
  "VArr xs \<equiv> Arr () xs []"

fun is_container :: "'i json \<Rightarrow> bool" where
  "is_container (Obj i p fs) = True"
| "is_container (Arr i xs ns) = True"
| "is_container _ = False"

fun is_array :: "'i json \<Rightarrow> bool" where
  "is_array (Arr i xs ns) = True"
| "is_array _ = False"

text \<open>Decimal digits of a number, and the strings that are array indices.\<close>

fun digits :: "nat \<Rightarrow> nat \<Rightarrow> string" where
  "digits 0 n = []"
| "digits (Suc fuel) n =
     (if n < 10 then [char_of (48 + n)]
      else digits fuel (n div 10) @ [char_of (48 + n mod 10)])"

definition show_nat :: "nat \<Rightarrow> string" where
  "show_nat n = digits (Suc n) n"

definition is_digit :: "char \<Rightarrow> bool" where
  "is_digit c \<longleftrightarrow> 48 \<le> (of_char c :: nat) \<and> (of_char c :: nat) \<le> 57"

definition index_value :: "string \<Rightarrow> int" where
  "index_value s = foldl (\<lambda>acc c. 10 * acc + (of_char c - 48)) 0 s"

definition is_index :: "string \<Rightarrow> bool" where
  "is_index s \<longleftrightarrow>
     s \<noteq> [] \<and> list_all is_digit s \<and> (s = ''0'' \<or> hd s \<noteq> CHR ''0'')
       \<and> index_value s < 4294967295"

text \<open>
  Writing an own property of an object: the value of a name that is there is
  replaced in place; a new array index goes before the first larger index or
  other name, any other new name to the end.
\<close>

definition comes_before :: "string \<Rightarrow> string \<Rightarrow> bool" where
  "comes_before k k' \<longleftrightarrow> is_index k \<and> (is_index k' \<longrightarrow> index_value k < index_value k')"

fun insert_key :: "string \<Rightarrow> 'a \<Rightarrow> (string \<times> 'a) list \<Rightarrow> (string \<times> 'a) list" where
  "insert_key k v [] = [(k, v)]"
| "insert_key k v ((k', v') # fs) =
     (if comes_before k k' then (k, v) # (k', v') # fs else (k', v') # insert_key k v fs)"

definition assign :: "string \<Rightarrow> 'a \<Rightarrow> (string \<times> 'a) list \<Rightarrow> (string \<times> 'a) list" where
  "assign k v fs =
     (if k \<in> set (map fst fs) then map (\<lambda>e. if fst e = k then (k, v) else e) fs
      else insert_key k v fs)"

text \<open>\<open>Object.keys\<close>: the own names in the order of enumeration.\<close>

fun keys_of :: "'i json \<Rightarrow> string list" where
  "keys_of (Obj i p fs) = map fst fs"
| "keys_of (Arr i xs ns) = map show_nat [0 ..< length xs] @ map fst ns"
| "keys_of _ = []"

text \<open>
  \<open>o[key]\<close> read for an own property, and the definition of an own property
  \<open>key\<close> with a value. An index past the end of an array would leave holes, and
  the name \<open>length\<close> of an array would cut or stretch it; the model keeps such
  a key among the named properties.
\<close>

fun get_prop :: "'i json \<Rightarrow> string \<Rightarrow> 'i json option" where
  "get_prop (Obj i p fs) k = map_of fs k"
| "get_prop (Arr i xs ns) k =
     (if is_index k \<and> index_value k < int (length xs) then Some (xs ! nat (index_value k))
      else map_of ns k)"
| "get_prop _ k = None"

fun set_prop :: "'i json \<Rightarrow> string \<Rightarrow> 'i json \<Rightarrow> 'i json" where
  "set_prop (Obj i p fs) k w = Obj i p (assign k w fs)"
| "set_prop (Arr i xs ns) k w =
     (if is_index k \<and> index_value k < int (length xs) then Arr i (xs[nat (index_value k) := w]) ns
      else if is_index k \<and> index_value k = int (length xs) then Arr i (xs @ [w]) ns
      else Arr i xs (assign k w ns))"
| "set_prop j k w = j"

fun push :: "'i json \<Rightarrow> 'i json \<Rightarrow> 'i json" where
  "push (Arr i xs ns) w = Arr i (xs @ [w]) ns"
| "push j w = j"

text \<open>
  The assignment \<open>o[key] = null\<close> of the handlers. For the name \<open>__proto__\<close> it
  reaches the setter of \<open>Object.prototype\<close> unless the object has an own property
  of that name or has lost its prototype: the setter takes the prototype away
  and adds no property.
\<close>

fun init_null :: "'i json \<Rightarrow> string \<Rightarrow> 'i json" where
  "init_null (Obj i p fs) k =
     (if k = ''__proto__'' \<and> k \<notin> set (map fst fs) \<and> p then Obj i False fs
      else Obj i p (assign k (Prim Null) fs))"
| "init_null j k = set_prop j k (Prim Null)"

subsection \<open>The merge of lodash\<close>

text \<open>
  \<open>_.merge(object, source)\<close> for values built from JSON, after the library: for
  every key of the source in turn, a source value that is an array or an
  object is merged recursively into the destination's value when that is an
  array, respectively an array or an object, and into a new empty container
  otherwise; any other source value is assigned. The source is read only, so a
  new container may stand for the source container it copies. A destination that
  is no object is left unchanged: \<open>_.merge\<close> wraps a primitive and changes the
  wrapper. Under the key \<open>__proto__\<close> the library reads \<open>undefined\<close> for an
  array or an object on both sides, and \<open>undefined\<close> is assigned only where the
  key is not in the destination. (An object with a numeric \<open>length\<close> counts as
  array-like for lodash; the model treats it as an object.)
\<close>

fun has_prototype :: "'i json \<Rightarrow> bool" where
  "has_prototype (Obj i p fs) = p"
| "has_prototype j = True"

text \<open>
  \<open>key in object\<close>, as far as it is asked: for the key of an \<open>undefined\<close>
  value, which is \<open>__proto__\<close>.
\<close>

definition key_in :: "'i json \<Rightarrow> string \<Rightarrow> bool" where
  "key_in object k \<longleftrightarrow> k \<in> set (keys_of object) \<or> (k = ''__proto__'' \<and> has_prototype object)"

definition assign_undefined :: "'i json \<Rightarrow> string \<Rightarrow> 'i json" where
  "assign_undefined object k = (if key_in object k then object else set_prop object k Undefined)"

fun baseMerge :: "'i json \<Rightarrow> 'i json \<Rightarrow> 'i json"
  and baseMerge_fields :: "'i json \<Rightarrow> (string \<times> 'i json) list \<Rightarrow> 'i json"
  and baseMerge_items :: "'i json \<Rightarrow> nat \<Rightarrow> 'i json list \<Rightarrow> 'i json"
  and baseMergeDeep :: "'i json \<Rightarrow> string \<Rightarrow> 'i json \<Rightarrow> 'i json" where
  "baseMerge object (Prim v) = object"
| "baseMerge object Undefined = object"
| "baseMerge object (Obj i p fs) = baseMerge_fields object fs"
| "baseMerge object (Arr i xs ns) = baseMerge_fields (baseMerge_items object 0 xs) ns"
| "baseMerge_fields object [] = object"
| "baseMerge_fields object ((k, srcValue) # rest) =
     baseMerge_fields (baseMergeDeep object k srcValue) rest"
| "baseMerge_items object n [] = object"
| "baseMerge_items object n (srcValue # rest) =
     baseMerge_items (baseMergeDeep object (show_nat n) srcValue) (Suc n) rest"
| "baseMergeDeep object k (Prim v) = set_prop object k (Prim v)"
| "baseMergeDeep object k Undefined = assign_undefined object k"
| "baseMergeDeep object k (Obj i p fs) =
     (if k = ''__proto__'' then assign_undefined object k
      else
        let newValue = (case get_prop object k of
                          Some objValue \<Rightarrow> if is_container objValue then objValue else Obj i True []
                        | None \<Rightarrow> Obj i True [])
        in set_prop object k (baseMerge_fields newValue fs))"
| "baseMergeDeep object k (Arr i xs ns) =
     (if k = ''__proto__'' then assign_undefined object k
      else
        let newValue = (case get_prop object k of
                          Some objValue \<Rightarrow> if is_array objValue then objValue else Arr i [] []
                        | None \<Rightarrow> Arr i [] [])
        in set_prop object k (baseMerge_fields (baseMerge_items newValue 0 xs) ns))"

definition merge :: "'i json \<Rightarrow> 'i json \<Rightarrow> 'i json" where
  "merge object source = (if is_container object then baseMerge object source else object)"

text \<open>
  The object a reference points to, changed where it sits: \<open>merge_at i source\<close>
  merges \<open>source\<close> into the container number \<open>i\<close> inside a value.
\<close>

fun merge_at :: "'i \<Rightarrow> 'i json \<Rightarrow> 'i json \<Rightarrow> 'i json" where
  "merge_at i source (Obj j p fs) =
     (if j = i then merge (Obj j p fs) source
      else Obj j p (map (\<lambda>(k, v). (k, merge_at i source v)) fs))"
| "merge_at i source (Arr j xs ns) =
     (if j = i then merge (Arr j xs ns) source
      else Arr j (map (merge_at i source) xs) (map (\<lambda>(k, v). (k, merge_at i source v)) ns))"
| "merge_at i source j = j"

subsection \<open>The handlers\<close>

text \<open>The events of clarinet; the first key of an object comes with its opening.\<close>

datatype event =
    OnValue scalar
  | OnOpenObject "string option"
  | OnKey string
  | OnOpenArray
  | OnCloseObject
  | OnCloseArray

datatype js_error = TypeError | ParseFailure | SyntaxError | UnsupportedSortGroups

text \<open>
  The state of \<open>parseJson\<close>: the stack \<open>elements\<close>, its top at the head of the
  list, \<open>root\<close> (\<open>None\<close> for \<open>null\<close> and \<open>undefined\<close>), the marker
  \<open>duplicated\<close> (a level and the value stored under the repeated key), and the
  number of containers allocated so far.
\<close>

record parser_state =
  elements :: "nat json list"
  root :: "nat json option"
  duplicated :: "(nat \<times> nat json) option"
  allocated :: nat

definition initial_state :: parser_state where
  "initial_state = \<lparr>elements = [], root = None, duplicated = None, allocated = 0\<rparr>"

text \<open>\<open>keys[keys.length - 1]\<close>; indexing past the end gives \<open>undefined\<close>.\<close>

definition lastKey :: "'i json \<Rightarrow> string" where
  "lastKey current = (if keys_of current = [] then ''undefined'' else last (keys_of current))"

text \<open>
  \<open>current.push(v)\<close> for an array, \<open>current[lastKey] = v\<close> otherwise:
  \<open>lastKey\<close> is an own property or the new name \<open>undefined\<close>, so the assignment
  writes an own property.
\<close>

definition attach :: "'i json \<Rightarrow> 'i json \<Rightarrow> 'i json" where
  "attach current v = (if is_array current then push current v else set_prop current (lastKey current) v)"

definition onvalue :: "scalar \<Rightarrow> parser_state \<Rightarrow> js_error + parser_state" where
  "onvalue v st =
     (case elements st of
        [] \<Rightarrow> Inl TypeError
      | current # below \<Rightarrow> Inr (st\<lparr>elements := attach current (Prim v) # below\<rparr>))"

definition onopenobject :: "string option \<Rightarrow> parser_state \<Rightarrow> js_error + parser_state" where
  "onopenobject key st =
     Inr (st\<lparr>elements := init_null (Obj (allocated st) True [])
                              (case key of None \<Rightarrow> ''undefined'' | Some k \<Rightarrow> k)
                            # elements st,
              allocated := Suc (allocated st)\<rparr>)"

definition onkey :: "string \<Rightarrow> parser_state \<Rightarrow> js_error + parser_state" where
  "onkey key st =
     (case elements st of
        [] \<Rightarrow> Inl TypeError
      | current # below \<Rightarrow>
          if key \<in> set (keys_of current)
          then Inr (st\<lparr>duplicated :=
                      Some (length (elements st) - 1,
                            case get_prop current key of None \<Rightarrow> Undefined | Some v \<Rightarrow> v)\<rparr>)
          else Inr (st\<lparr>elements := init_null current key # below\<rparr>))"

definition onopenarray :: "parser_state \<Rightarrow> js_error + parser_state" where
  "onopenarray st =
     Inr (st\<lparr>elements := Arr (allocated st) [] [] # elements st,
              allocated := Suc (allocated st)\<rparr>)"

text \<open>
  \<open>_.merge(duplicated[1], popped)\<close>: the object the marker refers to is changed
  in the containers of the stack and in \<open>root\<close>, wherever it is by now; a marker
  that holds no container changes nothing.
\<close>

definition merge_into :: "nat json \<Rightarrow> nat json \<Rightarrow> parser_state \<Rightarrow> parser_state" where
  "merge_into target popped st =
     (case target of
        Obj i p fs \<Rightarrow> st\<lparr>elements := map (merge_at i popped) (elements st),
                          root := map_option (merge_at i popped) (root st)\<rparr>
      | Arr i xs ns \<Rightarrow> st\<lparr>elements := map (merge_at i popped) (elements st),
                           root := map_option (merge_at i popped) (root st)\<rparr>
      | _ \<Rightarrow> st)"

definition onclose :: "parser_state \<Rightarrow> js_error + parser_state" where
  "onclose st =
     (case elements st of
        [] \<Rightarrow> Inr (st\<lparr>root := None\<rparr>)
      | [popped] \<Rightarrow> Inr (st\<lparr>elements := [], root := Some popped\<rparr>)
      | popped # current # below \<Rightarrow>
          (case duplicated st of
             Some (level, target) \<Rightarrow>
               if level = length (current # below) - 1
               then Inr ((merge_into target popped (st\<lparr>elements := current # below\<rparr>))
                           \<lparr>duplicated := None\<rparr>)
               else Inr (st\<lparr>elements := attach current popped # below\<rparr>)
           | None \<Rightarrow> Inr (st\<lparr>elements := attach current popped # below\<rparr>)))"

fun handle :: "event \<Rightarrow> parser_state \<Rightarrow> js_error + parser_state" where
  "handle (OnValue v) st = onvalue v st"
| "handle (OnOpenObject key) st = onopenobject key st"
| "handle (OnKey key) st = onkey key st"
| "handle OnOpenArray st = onopenarray st"
| "handle OnCloseObject st = onclose st"
| "handle OnCloseArray st = onclose st"

fun parser_write :: "event list \<Rightarrow> parser_state \<Rightarrow> js_error + parser_state" where
  "parser_write [] st = Inr st"
| "parser_write (e # es) st = (case handle e st of Inl err \<Rightarrow> Inl err | Inr st' \<Rightarrow> parser_write es st')"

text \<open>\<open>if (root instanceof Array) root = root[0]\<close>, then \<open>return root\<close>.\<close>

definition unwrap :: "'i json option \<Rightarrow> 'i json option" where
  "unwrap r =
     (case r of
        Some (Arr i xs ns) \<Rightarrow> (case xs of [] \<Rightarrow> None | x # _ \<Rightarrow> Some x)
      | _ \<Rightarrow> r)"

subsection \<open>JSON texts and the events clarinet reads from them\<close>

text \<open>
  A JSON text by its syntax: an object is the list of its members as written, so
  a key may occur twice. clarinet reports the first key of an object with the
  opening of the object, the later ones by key events, and an empty object by an
  opening without key. A text that is a scalar alone it rejects: the error is
  thrown when the parser is closed, and no handler has been called.
\<close>

datatype jtext = TScalar scalar | TArray "jtext list" | TObject "(string \<times> jtext) list"

fun events_of :: "jtext \<Rightarrow> event list"
  and events_of_items :: "jtext list \<Rightarrow> event list"
  and events_of_members :: "(string \<times> jtext) list \<Rightarrow> event list" where
  "events_of (TScalar v) = [OnValue v]"
| "events_of (TArray xs) = OnOpenArray # events_of_items xs @ [OnCloseArray]"
| "events_of (TObject []) = [OnOpenObject None, OnCloseObject]"
| "events_of (TObject ((k, v) # ms)) =
     OnOpenObject (Some k) # events_of v @ events_of_members ms @ [OnCloseObject]"
| "events_of_items [] = []"
| "events_of_items (x # xs) = events_of x @ events_of_items xs"
| "events_of_members [] = []"
| "events_of_members ((k, v) # ms) = OnKey k # events_of v @ events_of_members ms"

definition clarinet :: "jtext \<Rightarrow> js_error + event list" where
  "clarinet source = (case source of TScalar v \<Rightarrow> Inl SyntaxError | _ \<Rightarrow> Inr (events_of source))"

definition parseJson :: "jtext \<Rightarrow> js_error + nat json option" where
  "parseJson source =
     (case clarinet source of
        Inl err \<Rightarrow> Inl err
      | Inr events \<Rightarrow>
          (case parser_write events initial_state of
             Inl err \<Rightarrow> Inl err
           | Inr st \<Rightarrow> Inr (unwrap (root st))))"

text \<open>A value without the allocation numbers of its containers.\<close>

definition plain :: "'i json \<Rightarrow> jvalue" where
  "plain = map_json (\<lambda>i. ())"

text \<open>The result of \<open>parseJson\<close> without the allocation numbers.\<close>

definition parsed :: "jtext \<Rightarrow> js_error + jvalue option" where
  "parsed source = map_sum id (map_option plain) (parseJson source)"

subsection \<open>Reading a JSON text with repeated keys\<close>

text \<open>
  What the stream parser is for: the value of a JSON text in which a key of an
  object may be repeated, the values of the repeated key being merged in their
  order by \<open>_.merge\<close>. The reading is defined where
  \<^item> every key is an ordinary name: no array index, not \<open>__proto__\<close> and not
    \<open>length\<close>;
  \<^item> no object is empty;
  \<^item> a key is repeated only where both the value read so far and the new value
    are arrays or objects, and the new value has no repeated key inside.
\<close>

definition ordinary_key :: "string \<Rightarrow> bool" where
  "ordinary_key k \<longleftrightarrow> \<not> is_index k \<and> k \<noteq> ''__proto__'' \<and> k \<noteq> ''length''"

fun unrepeated :: "jtext \<Rightarrow> bool"
  and unrepeated_items :: "jtext list \<Rightarrow> bool"
  and unrepeated_members :: "string list \<Rightarrow> (string \<times> jtext) list \<Rightarrow> bool" where
  "unrepeated (TScalar v) = True"
| "unrepeated (TArray xs) = unrepeated_items xs"
| "unrepeated (TObject ms) = unrepeated_members [] ms"
| "unrepeated_items [] = True"
| "unrepeated_items (x # xs) = (unrepeated x \<and> unrepeated_items xs)"
| "unrepeated_members seen [] = True"
| "unrepeated_members seen ((k, v) # ms) =
     (k \<notin> set seen \<and> unrepeated v \<and> unrepeated_members (k # seen) ms)"

fun is_scalar :: "jtext \<Rightarrow> bool" where
  "is_scalar (TScalar v) = True"
| "is_scalar t = False"

fun read :: "jtext \<Rightarrow> jvalue option"
  and read_items :: "jtext list \<Rightarrow> jvalue list option"
  and read_members :: "(string \<times> jvalue) list \<Rightarrow> (string \<times> jtext) list
      \<Rightarrow> (string \<times> jvalue) list option" where
  "read (TScalar v) = Some (Prim v)"
| "read (TArray xs) = map_option VArr (read_items xs)"
| "read (TObject ms) = (if ms = [] then None else map_option VObj (read_members [] ms))"
| "read_items [] = Some []"
| "read_items (x # xs) =
     (case read x of
        None \<Rightarrow> None
      | Some v \<Rightarrow> map_option ((#) v) (read_items xs))"
| "read_members fs [] = Some fs"
| "read_members fs ((k, t) # ms) =
     (if \<not> ordinary_key k then None
      else case read t of
        None \<Rightarrow> None
      | Some v \<Rightarrow>
          (case map_of fs k of
             None \<Rightarrow> read_members (fs @ [(k, v)]) ms
           | Some old \<Rightarrow>
               if is_container old \<and> \<not> is_scalar t \<and> unrepeated t
               then read_members (assign k (merge old v) fs) ms
               else None))"

text \<open>
  The value the handlers build from a text on the stack, with its allocation
  numbers, the first of which is given; the second component is the number of
  the next allocation.
\<close>

fun build :: "nat \<Rightarrow> jtext \<Rightarrow> nat json \<times> nat"
  and build_items :: "nat \<Rightarrow> jtext list \<Rightarrow> nat json list \<times> nat"
  and build_members :: "nat \<Rightarrow> (string \<times> nat json) list \<Rightarrow> (string \<times> jtext) list
      \<Rightarrow> (string \<times> nat json) list \<times> nat" where
  "build a (TScalar v) = (Prim v, a)"
| "build a (TArray xs) = (let (vs, a') = build_items (Suc a) xs in (Arr a vs [], a'))"
| "build a (TObject ms) = (let (fs, a') = build_members (Suc a) [] ms in (Obj a True fs, a'))"
| "build_items a [] = ([], a)"
| "build_items a (x # xs) =
     (let (v, a1) = build a x; (vs, a2) = build_items a1 xs in (v # vs, a2))"
| "build_members a fs [] = (fs, a)"
| "build_members a fs ((k, t) # ms) =
     (let (v, a1) = build a t
      in build_members a1
           (case map_of fs k of None \<Rightarrow> fs @ [(k, v)] | Some old \<Rightarrow> assign k (merge old v) fs) ms)"

subsection \<open>Notions for reasoning about the handlers\<close>

text \<open>
  The allocation numbers inside a value; a value's fields without them; fields
  whose values share no container and no name; what the handlers do with a
  value that is complete (a scalar is written by \<open>onvalue\<close>, a container is
  on the stack and closed); a state in which no root is set yet; a stack whose
  containers are all older than an allocation number; a marker that no close
  inside a value will serve; and the rest of the events written after a step.
  \<open>delivered t\<close> says that the events of the text \<open>t\<close>, written in such a
  state, do what delivering the value \<open>build\<close> gives for \<open>t\<close> does.
\<close>

fun ids :: "'i json \<Rightarrow> 'i set"
  and ids_fields :: "(string \<times> 'i json) list \<Rightarrow> 'i set"
  and ids_items :: "'i json list \<Rightarrow> 'i set" where
  "ids (Prim v) = {}"
| "ids Undefined = {}"
| "ids (Obj i p fs) = insert i (ids_fields fs)"
| "ids (Arr i xs ns) = insert i (ids_items xs \<union> ids_fields ns)"
| "ids_fields [] = {}"
| "ids_fields ((k, v) # fs) = ids v \<union> ids_fields fs"
| "ids_items [] = {}"
| "ids_items (x # xs) = ids x \<union> ids_items xs"

definition plain_fields :: "(string \<times> 'i json) list \<Rightarrow> (string \<times> jvalue) list" where
  "plain_fields fs = map (\<lambda>(k, v). (k, plain v)) fs"

fun separate :: "(string \<times> 'i json) list \<Rightarrow> bool" where
  "separate [] = True"
| "separate ((k, v) # fs) = (k \<notin> set (map fst fs) \<and> ids v \<inter> ids_fields fs = {} \<and> separate fs)"

definition deliver :: "nat json \<Rightarrow> nat \<Rightarrow> parser_state \<Rightarrow> js_error + parser_state" where
  "deliver x a st =
     (case x of
        Prim v \<Rightarrow> onvalue v (st\<lparr>allocated := a\<rparr>)
      | _ \<Rightarrow> onclose (st\<lparr>elements := x # elements st, allocated := a\<rparr>))"

abbreviation working :: "nat json list \<Rightarrow> (nat \<times> nat json) option \<Rightarrow> nat \<Rightarrow> parser_state" where
  "working es d a \<equiv> \<lparr>elements = es, root = None, duplicated = d, allocated = a\<rparr>"

definition older :: "nat json list \<Rightarrow> nat \<Rightarrow> bool" where
  "older es a \<longleftrightarrow> (\<forall>e \<in> set es. \<forall>j \<in> ids e. j < a)"

definition marker_ok :: "(nat \<times> nat json) option \<Rightarrow> bool \<Rightarrow> nat \<Rightarrow> bool" where
  "marker_ok d u n = (case d of None \<Rightarrow> True | Some (level, target) \<Rightarrow> u \<and> level < n)"

definition then_write :: "event list \<Rightarrow> js_error + parser_state \<Rightarrow> js_error + parser_state" where
  "then_write rest r = (case r of Inl err \<Rightarrow> Inl err | Inr st \<Rightarrow> parser_write rest st)"

definition delivered :: "jtext \<Rightarrow> bool" where
  "delivered t \<longleftrightarrow>
     (\<forall>es d a rest.
        read t \<noteq> None \<longrightarrow> older es a \<longrightarrow> marker_ok d (unrepeated t) (length es) \<longrightarrow>
        parser_write (events_of t @ rest) (working es d a)
          = then_write rest (deliver (fst (build a t)) (snd (build a t)) (working es d a)))"

subsection \<open>Example texts\<close>

definition repeated_scalar :: jtext where
  "repeated_scalar =
     TObject [(''a'', TScalar (Number 1)), (''b'', TScalar (Number 2)), (''a'', TScalar (Number 3))]"

definition proto_first :: jtext where
  "proto_first = TObject [(''__proto__'', TScalar (Number 1)), (''a'', TScalar (Number 2))]"

definition worker_text :: "(string \<times> scalar) list \<Rightarrow> jtext" where
  "worker_text ps = TObject (map (\<lambda>(k, v). (k, TScalar v)) ps)"

definition sort_node :: jtext where
  "sort_node =
     TArray [TObject [(''Plan'', TObject
       [(''Node Type'', TScalar (String ''Sort'')),
        (''Workers'', TArray [worker_text [(''Worker Number'', Number 0), (''Actual Rows'', Number 10)],
                              worker_text [(''Worker Number'', Number 1), (''Actual Rows'', Number 20)]]),
        (''Plan Rows'', TScalar (Number 5)),
        (''Workers'', TArray [worker_text [(''Worker Number'', Number 0), (''Sort Method'', String ''quicksort'')],
                              worker_text [(''Worker Number'', Number 1), (''Sort Method'', String ''top-N'')],
                              worker_text [(''Worker Number'', Number 2), (''Sort Method'', String ''external'')]]),
        (''Workers'', TArray [worker_text [(''Actual Rows'', Number 11)]])])]]"

text \<open>The \<open>Plan\<close> of \<open>sort_node\<close> with its three \<open>Workers\<close> members merged.\<close>

definition merged_sort :: jvalue where
  "merged_sort =
     VObj [(''Node Type'', Prim (String ''Sort'')),
           (''Workers'',
            VArr [VObj [(''Worker Number'', Prim (Number 0)), (''Actual Rows'', Prim (Number 11)),
                        (''Sort Method'', Prim (String ''quicksort''))],
                  VObj [(''Worker Number'', Prim (Number 1)), (''Actual Rows'', Prim (Number 20)),
                        (''Sort Method'', Prim (String ''top-N''))],
                  VObj [(''Worker Number'', Prim (Number 2)),
                        (''Sort Method'', Prim (String ''external''))]]),
           (''Plan Rows'', Prim (Number 5))]"

text \<open>Texts at the borders of the reading.\<close>

definition repeated_inside_later :: jtext where
  "repeated_inside_later =
     TObject [(''w'', TObject [(''x'', TScalar (Number 1))]),
              (''w'', TObject [(''a'', TObject [(''p'', TScalar (Number 1))]),
                               (''a'', TObject [(''q'', TScalar (Number 1))])])]"

definition scalar_then_object :: jtext where
  "scalar_then_object =
     TObject [(''a'', TScalar (Number 1)), (''a'', TObject [(''x'', TScalar (Number 1))])]"

definition empty_later :: jtext where
  "empty_later = TObject [(''a'', TObject [(''x'', TScalar (Number 1))]), (''a'', TObject [])]"

definition index_key :: jtext where
  "index_key = TObject [(''b'', TScalar (Number 1)), (''0'', TScalar (Number 2))]"


section \<open>Strings and regular expressions of JavaScript\<close>

text \<open>
  A JavaScript string is a sequence of UTF-16 code units; a regular expression
  without the \<open>u\<close> flag matches code unit by code unit. \<open>utf16\<close> gives the code
  units of a literal of Latin-1 characters.
\<close>

type_synonym ustring = "int list"

definition utf16 :: "string \<Rightarrow> ustring" where
  "utf16 s = map of_char s"

text \<open>White space (\<open>\s\<close>) and the line terminators (what \<open>.\<close> leaves out).\<close>

definition is_space :: "int \<Rightarrow> bool" where
  "is_space c \<longleftrightarrow>
     c \<in> set [9, 10, 11, 12, 13, 32, 160, 5760, 8232, 8233, 8239, 8287, 12288, 65279]
       \<or> (8192 \<le> c \<and> c \<le> 8202)"

definition line_terminator :: "int \<Rightarrow> bool" where
  "line_terminator c \<longleftrightarrow> c \<in> set [10, 13, 8232, 8233]"

datatype cclass = Ch int | Rng int int | Space | Digit

fun in_class :: "int \<Rightarrow> cclass \<Rightarrow> bool" where
  "in_class c (Ch d) = (c = d)"
| "in_class c (Rng lo hi) = (lo \<le> c \<and> c \<le> hi)"
| "in_class c Space = is_space c"
| "in_class c Digit = (48 \<le> c \<and> c \<le> 57)"

text \<open>
  The patterns the sources use: a character of a class (\<open>One\<close>) or outside it
  (\<open>NoneOf\<close>), \<open>.\<close>, sequence, alternative, the greedy and the lazy star, a
  capturing group with its number, a back reference, \<open>^\<close> and \<open>$\<close>.
\<close>

datatype rx =
    Eps
  | One "cclass list"
  | NoneOf "cclass list"
  | Dot
  | Seq rx rx
  | Alt rx rx
  | Star rx
  | LazyStar rx
  | Group nat rx
  | Backref nat
  | Bol
  | Eol

type_synonym captures = "(nat \<times> ustring) list"

text \<open>
  A state of the matcher: the code unit before the position (\<open>None\<close> at the start
  of the string), the rest of the string, and the groups captured so far.
\<close>

type_synonym mstate = "int option \<times> ustring \<times> captures"

fun groups_in :: "rx \<Rightarrow> nat list" where
  "groups_in (Seq r1 r2) = groups_in r1 @ groups_in r2"
| "groups_in (Alt r1 r2) = groups_in r1 @ groups_in r2"
| "groups_in (Star r) = groups_in r"
| "groups_in (LazyStar r) = groups_in r"
| "groups_in (Group n r) = n # groups_in r"
| "groups_in r = []"

definition capture :: "nat \<Rightarrow> ustring \<Rightarrow> captures \<Rightarrow> captures" where
  "capture n w caps = (n, w) # filter (\<lambda>e. fst e \<noteq> n) caps"

definition clear :: "nat list \<Rightarrow> captures \<Rightarrow> captures" where
  "clear ns caps = filter (\<lambda>e. fst e \<notin> set ns) caps"

definition last_unit :: "int option \<Rightarrow> ustring \<Rightarrow> int option" where
  "last_unit prev w = (if w = [] then prev else Some (last w))"

text \<open>
  The backtracking matcher: \<open>matches m r s\<close> lists the states in which a match
  of \<open>r\<close> from \<open>s\<close> can end, in the order in which backtracking tries them;
  \<open>m\<close> is the multiline flag. A star gives up an iteration that consumes
  nothing, and clears the groups of its body before each iteration, as the
  language demands.
\<close>

fun matches :: "bool \<Rightarrow> rx \<Rightarrow> mstate \<Rightarrow> mstate list" where
  "matches m Eps s = [s]"
| "matches m (One cs) (prev, inp, caps) =
     (case inp of [] \<Rightarrow> []
      | c # rest \<Rightarrow> if list_ex (in_class c) cs then [(Some c, rest, caps)] else [])"
| "matches m (NoneOf cs) (prev, inp, caps) =
     (case inp of [] \<Rightarrow> []
      | c # rest \<Rightarrow> if list_ex (in_class c) cs then [] else [(Some c, rest, caps)])"
| "matches m Dot (prev, inp, caps) =
     (case inp of [] \<Rightarrow> []
      | c # rest \<Rightarrow> if line_terminator c then [] else [(Some c, rest, caps)])"
| "matches m (Seq r1 r2) s = concat (map (matches m r2) (matches m r1 s))"
| "matches m (Alt r1 r2) s = matches m r1 s @ matches m r2 s"
| "matches m (Star r) (prev, inp, caps) =
     concat (map (\<lambda>s'. if length (fst (snd s')) < length inp then matches m (Star r) s' else [])
                 (matches m r (prev, inp, clear (groups_in r) caps)))
     @ [(prev, inp, caps)]"
| "matches m (LazyStar r) (prev, inp, caps) =
     (prev, inp, caps)
     # concat (map (\<lambda>s'. if length (fst (snd s')) < length inp then matches m (LazyStar r) s' else [])
                   (matches m r (prev, inp, clear (groups_in r) caps)))"
| "matches m (Group n r) (prev, inp, caps) =
     map (\<lambda>s'. (fst s', fst (snd s'),
                 capture n (take (length inp - length (fst (snd s'))) inp) (snd (snd s'))))
         (matches m r (prev, inp, caps))"
| "matches m (Backref n) (prev, inp, caps) =
     (case map_of caps n of
        None \<Rightarrow> [(prev, inp, caps)]
      | Some w \<Rightarrow> if take (length w) inp = w
                  then [(last_unit prev w, drop (length w) inp, caps)] else [])"
| "matches m Bol (prev, inp, caps) =
     (case prev of
        None \<Rightarrow> [(prev, inp, caps)]
      | Some c \<Rightarrow> if m \<and> line_terminator c then [(prev, inp, caps)] else [])"
| "matches m Eol (prev, inp, caps) =
     (case inp of
        [] \<Rightarrow> [(prev, inp, caps)]
      | c # rest \<Rightarrow> if m \<and> line_terminator c then [(prev, inp, caps)] else [])"

text \<open>Shorthands for writing patterns.\<close>

definition lit :: "int \<Rightarrow> rx" where
  "lit c = One [Ch c]"

definition seq :: "rx list \<Rightarrow> rx" where
  "seq rs = foldr Seq rs Eps"

definition str :: "string \<Rightarrow> rx" where
  "str s = seq (map (\<lambda>c. lit (of_char c)) s)"

fun alt :: "rx list \<Rightarrow> rx" where
  "alt [] = NoneOf [Rng 0 65535]"
| "alt [r] = r"
| "alt (r # rs) = Alt r (alt rs)"

definition plus :: "rx \<Rightarrow> rx" where
  "plus r = Seq r (Star r)"

text \<open>
  \<open>r?\<close>. No optional part of the patterns below can match the empty string, so
  the empty check of the quantifier is not needed.
\<close>

definition opt :: "rx \<Rightarrow> rx" where
  "opt r = Alt r Eps"

definition spaces :: rx where
  "spaces = Star (One [Space])"

definition LF :: int where "LF = 10"
definition CR :: int where "CR = 13"

text \<open>
  The first match at a position, as \<open>(matched text, groups)\<close>, and the first
  match at or after a position, with the text skipped before it: what
  \<open>RegExp.prototype.exec\<close> finds from \<open>lastIndex\<close>.
\<close>

definition match_here :: "bool \<Rightarrow> rx \<Rightarrow> int option \<Rightarrow> ustring \<Rightarrow> (ustring \<times> captures) option" where
  "match_here m r prev inp =
     (case matches m r (prev, inp, []) of
        [] \<Rightarrow> None
      | s' # _ \<Rightarrow> Some (take (length inp - length (fst (snd s'))) inp, snd (snd s')))"

fun search :: "bool \<Rightarrow> rx \<Rightarrow> int option \<Rightarrow> ustring \<Rightarrow> (ustring \<times> ustring \<times> captures) option" where
  "search m r prev inp =
     (case match_here m r prev inp of
        Some (text, caps) \<Rightarrow> Some ([], text, caps)
      | None \<Rightarrow>
          (case inp of
             [] \<Rightarrow> None
           | c # rest \<Rightarrow>
               (case search m r (Some c) rest of
                  None \<Rightarrow> None
                | Some (skipped, text, caps) \<Rightarrow> Some (c # skipped, text, caps))))"

definition exec :: "bool \<Rightarrow> rx \<Rightarrow> ustring \<Rightarrow> (ustring \<times> captures) option" where
  "exec m r inp = map_option snd (search m r None inp)"

definition test :: "bool \<Rightarrow> rx \<Rightarrow> ustring \<Rightarrow> bool" where
  "test m r inp = (exec m r inp \<noteq> None)"

text \<open>\<open>$n\<close> in a replacement: the group, or the empty string when it took no part.\<close>

definition group :: "captures \<Rightarrow> nat \<Rightarrow> ustring" where
  "group caps n = (case map_of caps n of None \<Rightarrow> [] | Some w \<Rightarrow> w)"

text \<open>
  \<open>String.prototype.replace\<close> with a global pattern: every match is replaced,
  the search going on behind the match, or one code unit further after an empty
  match. The number counts the code units of the last match still to be passed.
\<close>

fun replace_from :: "bool \<Rightarrow> rx \<Rightarrow> (captures \<Rightarrow> ustring) \<Rightarrow> nat \<Rightarrow> int option \<Rightarrow> ustring \<Rightarrow> ustring" where
  "replace_from m r f (Suc k) prev [] = []"
| "replace_from m r f (Suc k) prev (c # rest) = replace_from m r f k (Some c) rest"
| "replace_from m r f 0 prev [] =
     (case match_here m r prev [] of None \<Rightarrow> [] | Some (text, caps) \<Rightarrow> f caps)"
| "replace_from m r f 0 prev (c # rest) =
     (case match_here m r prev (c # rest) of
        None \<Rightarrow> c # replace_from m r f 0 (Some c) rest
      | Some (text, caps) \<Rightarrow>
          f caps @ (if text = [] then c # replace_from m r f 0 (Some c) rest
                    else replace_from m r f (length text - 1) (Some c) rest))"

definition replace_all :: "bool \<Rightarrow> rx \<Rightarrow> (captures \<Rightarrow> ustring) \<Rightarrow> ustring \<Rightarrow> ustring" where
  "replace_all m r f s = replace_from m r f 0 None s"

text \<open>\<open>String.prototype.replace\<close> with a pattern that is not global: the first match only.\<close>

definition replace_first :: "bool \<Rightarrow> rx \<Rightarrow> (captures \<Rightarrow> ustring) \<Rightarrow> ustring \<Rightarrow> ustring" where
  "replace_first m r f s =
     (case search m r None s of
        None \<Rightarrow> s
      | Some (skipped, text, caps) \<Rightarrow> skipped @ f caps @ drop (length skipped + length text) s)"

section \<open>Source cleanup\<close>


text \<open>\<open>\r?\n\<close>, the end of every line pattern.\<close>

definition eol :: "rx list" where
  "eol = [opt (lit CR), lit LF]"


















subsection \<open>Example sources\<close>



section \<open>The text parser\<close>

subsection \<open>More of JavaScript's strings\<close>

text \<open>
  \<open>String.prototype.split\<close> with a pattern: the string is cut at every match
  that is not empty or not at the start of a piece, and the groups of the
  pattern are put between the pieces, \<open>None\<close> standing for \<open>undefined\<close>. The
  arguments are the groups of the pattern, the piece collected so far, the code
  units of the last match still to be passed, the code unit before the
  position, and the rest of the string.
\<close>

definition group_opt :: "captures \<Rightarrow> nat \<Rightarrow> ustring option" where
  "group_opt caps n = map_of caps n"

fun split_from :: "bool \<Rightarrow> rx \<Rightarrow> nat list \<Rightarrow> ustring \<Rightarrow> nat \<Rightarrow> int option \<Rightarrow> ustring
    \<Rightarrow> ustring option list" where
  "split_from m r gs piece k prev [] = [Some piece]"
| "split_from m r gs piece (Suc k) prev (c # rest) = split_from m r gs piece k (Some c) rest"
| "split_from m r gs piece 0 prev (c # rest) =
     (case match_here m r prev (c # rest) of
        None \<Rightarrow> split_from m r gs (piece @ [c]) 0 (Some c) rest
      | Some (text, caps) \<Rightarrow>
          if text = [] \<and> piece = [] then split_from m r gs [c] 0 (Some c) rest
          else Some piece # map (group_opt caps) gs
               @ (if text = [] then split_from m r gs [c] 0 (Some c) rest
                  else split_from m r gs [] (length text - 1) (Some c) rest))"

definition split :: "bool \<Rightarrow> rx \<Rightarrow> ustring \<Rightarrow> ustring option list" where
  "split m r s =
     (if s = [] then (if match_here m r None [] = None then [Some []] else [])
      else split_from m r (groups_in r) [] 0 None s)"

text \<open>The pieces that are truthy: \<open>.filter((x) => x)\<close>.\<close>

definition truthy_pieces :: "ustring option list \<Rightarrow> ustring list" where
  "truthy_pieces ps = concat (map (\<lambda>p. case p of None \<Rightarrow> [] | Some w \<Rightarrow> if w = [] then [] else [w]) ps)"

definition is_sub :: "ustring \<Rightarrow> ustring \<Rightarrow> bool" where
  "is_sub w s \<longleftrightarrow> list_ex (\<lambda>t. take (length w) t = w) (map (\<lambda>i. drop i s) [0 ..< Suc (length s)])"

definition toLowerCase :: "ustring \<Rightarrow> ustring" where
  "toLowerCase s = map (\<lambda>c. if 65 \<le> c \<and> c \<le> 90 then c + 32 else c) s"

definition trim :: "ustring \<Rightarrow> ustring" where
  "trim s = rev (dropWhile is_space (rev (dropWhile is_space s)))"

text \<open>
  \<open>parseFloat\<close> and \<open>parseInt\<close> with radix 0: the value of the longest prefix
  that is a number, NaN when there is none. Values are exact; the rounding to a
  double is not modelled.
\<close>

definition digit_value :: "int \<Rightarrow> int" where
  "digit_value c =
     (if 48 \<le> c \<and> c \<le> 57 then c - 48
      else if 97 \<le> c \<and> c \<le> 102 then c - 87
      else if 65 \<le> c \<and> c \<le> 70 then c - 55 else 16)"

definition number_of :: "int \<Rightarrow> ustring \<Rightarrow> int" where
  "number_of radix ds = foldl (\<lambda>acc c. radix * acc + digit_value c) 0 ds"

definition is_dec :: "int \<Rightarrow> bool" where
  "is_dec c \<longleftrightarrow> 48 \<le> c \<and> c \<le> 57"

definition sign_of :: "ustring \<Rightarrow> rat \<times> ustring" where
  "sign_of s = (case s of [] \<Rightarrow> (1, [])
                | c # rest \<Rightarrow> if c = 45 then (- 1, rest) else if c = 43 then (1, rest) else (1, s))"

definition exponent_of :: "ustring \<Rightarrow> int" where
  "exponent_of s =
     (case s of [] \<Rightarrow> 0
      | c # rest \<Rightarrow>
          if c = 101 \<or> c = 69 then
            (let (sg, ds) = sign_of rest; es = takeWhile is_dec ds
             in if es = [] then 0 else (if sg < 0 then - number_of 10 es else number_of 10 es))
          else 0)"

definition power10 :: "int \<Rightarrow> rat" where
  "power10 e = (if 0 \<le> e then 10 ^ nat e else 1 / 10 ^ nat (- e))"

definition parseFloat :: "ustring \<Rightarrow> jsnum" where
  "parseFloat s =
     (let (sg, s1) = sign_of (dropWhile is_space s) in
      if take 8 s1 = utf16 ''Infinity'' then signed_inf (0 < sg)
      else
        let ip = takeWhile is_dec s1;
            r1 = dropWhile is_dec s1;
            fp = (case r1 of [] \<Rightarrow> [] | c # rest \<Rightarrow> if c = 46 then takeWhile is_dec rest else []);
            r2 = (case r1 of [] \<Rightarrow> [] | c # rest \<Rightarrow> if c = 46 then dropWhile is_dec rest else r1)
        in if ip = [] \<and> fp = [] then NaN
           else Num (sg * (of_int (number_of 10 ip) + of_int (number_of 10 fp) / 10 ^ length fp)
                        * power10 (exponent_of r2)))"

definition parseInt :: "ustring \<Rightarrow> jsnum" where
  "parseInt s =
     (let (sg, s1) = sign_of (dropWhile is_space s);
          hex = (take 2 s1 = utf16 ''0x'' \<or> take 2 s1 = utf16 ''0X'');
          ds = (if hex then takeWhile (\<lambda>c. digit_value c < 16) (drop 2 s1) else takeWhile is_dec s1)
      in if ds = [] then NaN else Num (sg * of_int (number_of (if hex then 16 else 10) ds)))"

subsection \<open>Objects\<close>

text \<open>
  The parser builds plain objects with properties named by strings and reaches
  the same node from the stack and from its parent, so the objects live in a
  store and are referred to by address; the envelope \<open>root\<close> has address 0.
  Arrays and the objects no second reference leads to are kept in place.
\<close>

datatype tvalue =
    TNull
  | TNum jsnum
  | TStr ustring
  | TRef nat
  | TArr "tvalue list"
  | TObj "(ustring \<times> tvalue) list"

type_synonym tobj = "(ustring \<times> tvalue) list"

fun truthy_value :: "tvalue option \<Rightarrow> bool" where
  "truthy_value None = False"
| "truthy_value (Some TNull) = False"
| "truthy_value (Some (TNum x)) = truthy (Some x)"
| "truthy_value (Some (TStr s)) = (s \<noteq> [])"
| "truthy_value (Some _) = True"

fun put :: "ustring \<Rightarrow> tvalue \<Rightarrow> tobj \<Rightarrow> tobj" where
  "put k v [] = [(k, v)]"
| "put k v ((k', v') # fs) = (if k' = k then (k, v) # fs else (k', v') # put k v fs)"

definition get :: "tobj list \<Rightarrow> nat \<Rightarrow> ustring \<Rightarrow> tvalue option" where
  "get h a k = map_of (h ! a) k"

definition set_at :: "tobj list \<Rightarrow> nat \<Rightarrow> ustring \<Rightarrow> tvalue \<Rightarrow> tobj list" where
  "set_at h a k v = h[a := put k v (h ! a)]"

text \<open>
  Modelled from the spec: the values of the enumeration \<open>NodeProp\<close>, which is
  not among the sources. They are the names of the properties, those of
  PostgreSQL's own JSON format, which the JSON path reads under the same
  enumeration.
\<close>

definition NODE_TYPE :: ustring where "NODE_TYPE = utf16 ''Node Type''"
definition STARTUP_COST_name :: ustring where "STARTUP_COST_name = utf16 ''Startup Cost''"
definition TOTAL_COST_name :: ustring where "TOTAL_COST_name = utf16 ''Total Cost''"
definition PLAN_ROWS_name :: ustring where "PLAN_ROWS_name = utf16 ''Plan Rows''"
definition PLAN_WIDTH_name :: ustring where "PLAN_WIDTH_name = utf16 ''Plan Width''"
definition ACTUAL_STARTUP_TIME_name :: ustring where "ACTUAL_STARTUP_TIME_name = utf16 ''Actual Startup Time''"
definition ACTUAL_TOTAL_TIME_name :: ustring where "ACTUAL_TOTAL_TIME_name = utf16 ''Actual Total Time''"
definition ACTUAL_ROWS_name :: ustring where "ACTUAL_ROWS_name = utf16 ''Actual Rows''"
definition ACTUAL_LOOPS_name :: ustring where "ACTUAL_LOOPS_name = utf16 ''Actual Loops''"
definition PLANS :: ustring where "PLANS = utf16 ''Plans''"
definition PARENT_RELATIONSHIP :: ustring where "PARENT_RELATIONSHIP = utf16 ''Parent Relationship''"
definition SUBPLAN_NAME :: ustring where "SUBPLAN_NAME = utf16 ''Subplan Name''"
definition WORKERS :: ustring where "WORKERS = utf16 ''Workers''"
definition WORKER_NUMBER :: ustring where "WORKER_NUMBER = utf16 ''Worker Number''"
definition SORT_METHOD :: ustring where "SORT_METHOD = utf16 ''Sort Method''"
definition SORT_SPACE_USED :: ustring where "SORT_SPACE_USED = utf16 ''Sort Space Used''"
definition SORT_SPACE_TYPE :: ustring where "SORT_SPACE_TYPE = utf16 ''Sort Space Type''"

text \<open>
  Modelled from the spec: the constructors \<open>new Node(type)\<close> and
  \<open>new Worker(number)\<close>, whose classes are not among the sources. A node is
  created with its type, a worker with its number.
\<close>

definition new_node :: "ustring \<Rightarrow> tobj" where
  "new_node t = [(NODE_TYPE, TStr t)]"

definition new_worker :: "jsnum \<Rightarrow> tobj" where
  "new_worker n = [(WORKER_NUMBER, TNum n)]"

subsection \<open>Splitting the text into logical lines\<close>

text \<open>A word matched without regard to case, as under the flag \<open>i\<close>.\<close>

definition stri :: "string \<Rightarrow> rx" where
  "stri s = seq (map (\<lambda>ch. let c = of_char ch in
                        if 97 \<le> c \<and> c \<le> 122 then One [Ch c, Ch (c - 32)]
                        else if 65 \<le> c \<and> c \<le> 90 then One [Ch c, Ch (c + 32)]
                        else lit c) s)"

definition space1 :: rx where
  "space1 = plus (One [Space])"

definition newline :: rx where
  "newline = seq eol"

definition keyword_line :: rx where
  "keyword_line =
     seq [Bol, alt [seq [stri ''Total'', space1, stri ''runtime''],
                    seq [stri ''Planning'', space1, stri ''time''],
                    seq [stri ''Execution'', space1, stri ''time''],
                    stri ''Time'', stri ''Filter'', stri ''Output'', stri ''JIT'']]"

definition countChar :: "ustring \<Rightarrow> int \<Rightarrow> nat" where
  "countChar s ch = length (filter (\<lambda>c. c = ch) s)"

text \<open>
  \<open>out[out.length - 1] += line\<close>: on an empty list this writes the property
  \<open>-1\<close> of the array and leaves its elements alone.
\<close>

definition append_to_last :: "ustring list \<Rightarrow> ustring \<Rightarrow> ustring list" where
  "append_to_last out line = (if out = [] then [] else butlast out @ [last out @ line])"

definition splitIntoLines_step :: "ustring list \<Rightarrow> ustring \<Rightarrow> ustring list" where
  "splitIntoLines_step out line =
     (if countChar line 41 > countChar line 40 then append_to_last out line
      else if test False keyword_line line then out @ [line]
      else if test False (seq [Bol, NoneOf [Space]]) line
              \<or> test False (seq [Bol, spaces, lit 40]) line
      then (if 0 < length out then append_to_last out line else out @ [line])
      else out @ [line])"

definition splitIntoLines :: "ustring \<Rightarrow> ustring list" where
  "splitIntoLines text =
     foldl splitIntoLines_step [] (map (\<lambda>p. case p of None \<Rightarrow> [] | Some w \<Rightarrow> w) (split False newline text))"

subsection \<open>The patterns of a line\<close>

text \<open>
  \<open>emptyLineRegex\<close> is written \<open>'^\s*$'\<close> in a string literal, where \<open>\s\<close> is
  the letter s: the pattern is \<open>^s*$\<close>.
\<close>

definition emptyLineRegex :: rx where
  "emptyLineRegex = seq [Bol, Star (lit 115), Eol]"

definition headerRegex :: rx where
  "headerRegex =
     seq [Bol, spaces, Group 1 (alt [str ''QUERY'', str ''---'', str ''#'']), Star Dot, Eol]"

definition decimal :: rx where
  "decimal = seq [plus (One [Digit]), lit 46, plus (One [Digit])]"

definition integer :: rx where
  "integer = plus (One [Digit])"

text \<open>The estimation and the actuals, their groups numbered from \<open>n\<close>.\<close>

definition estimationRegex :: "nat \<Rightarrow> rx" where
  "estimationRegex n =
     seq [lit 40, str ''cost='', Group n decimal, str ''..'', Group (n + 1) decimal, space1,
          str ''rows='', Group (n + 2) integer, space1, str ''width='', Group (n + 3) integer, lit 41]"

definition actualRegex :: "nat \<Rightarrow> rx" where
  "actualRegex n =
     alt [seq [str ''actual'', One [Space], str ''time='', Group n decimal, str ''..'',
               Group (n + 1) decimal, One [Space], str ''rows='', Group (n + 2) integer,
               One [Space], str ''loops='', Group (n + 3) integer],
          seq [str ''actual'', One [Space], str ''rows='', Group (n + 4) integer,
               One [Space], str ''loops='', Group (n + 5) integer],
          Group (n + 6) (seq [str ''never'', space1, str ''executed''])]"

definition nodeRegex :: rx where
  "nodeRegex =
     seq [Bol, Group 1 (alt [seq [spaces, str ''->'', spaces], spaces]),
          Group 2 (LazyStar (NoneOf [Ch 13, Ch 10, Ch 9, Ch 12, Ch 11, Ch 58, Ch 40])),
          spaces,
          alt [seq [estimationRegex 3, space1, lit 40, actualRegex 7, lit 41],
               estimationRegex 14,
               seq [lit 40, actualRegex 18, lit 41]],
          spaces, Eol]"

definition subRegex :: rx where
  "subRegex =
     seq [Bol, Group 1 spaces, Group 2 (seq [alt [str ''Sub'', str ''Init''], str ''Plan'']), spaces,
          opt (seq [integer, spaces]), spaces,
          opt (seq [lit 40, str ''returns'', Star Dot, lit 41, spaces]), Eol]"

definition cteRegex :: rx where
  "cteRegex = seq [Bol, Group 1 spaces, str ''CTE'', space1, Group 2 (plus (NoneOf [Space])), spaces, Eol]"

definition triggerRegex :: rx where
  "triggerRegex =
     seq [Bol, Group 1 spaces, str ''Trigger'', space1, Group 2 (Star Dot), lit 58, space1,
          str ''time='', Group 3 decimal, space1, str ''calls='', Group 4 integer, spaces, Eol]"

definition workerRegex :: rx where
  "workerRegex =
     seq [Bol, Group 1 spaces, str ''Worker'', space1, Group 2 integer, lit 58, space1,
          opt (actualRegex 3), Group 10 (Star Dot), spaces, Eol]"

definition jitRegex :: rx where
  "jitRegex = seq [Bol, Group 1 spaces, str ''JIT:'', spaces, Eol]"

definition extraRegex :: rx where
  "extraRegex =
     seq [Bol, Group 1 spaces, Group 2 (seq [NoneOf [Space], Star Dot, NoneOf [Space]]), spaces, Eol]"

definition info_split :: rx where
  "info_split = seq [str '': '', Group 1 (plus Dot)]"

definition ms_unit :: rx where
  "ms_unit = seq [Group 1 (seq [spaces, str ''ms'']), Eol]"

definition sortRegex :: rx where
  "sortRegex =
     seq [Bol, Group 1 spaces, str ''Sort Method:'', space1, Group 2 (Star Dot), space1,
          Group 3 (alt [str ''Memory'', str ''Disk'']), lit 58, space1,
          Group 4 (Star (NoneOf [Space])), str ''kB'', spaces, Eol]"

subsection \<open>The state of the parser\<close>

text \<open>
  An element of \<open>elementsAtDepth\<close>: the address of its node, its
  \<open>subelementType\<close> and its \<open>name\<close>, the last two absent where the source
  gives none.
\<close>

record element =
  node :: nat
  subelementType :: "ustring option"
  name :: "ustring option"

record text_state =
  heap :: "tobj list"
  elementsAtDepth :: "(nat \<times> element) list"

definition alloc :: "tobj \<Rightarrow> text_state \<Rightarrow> nat \<times> text_state" where
  "alloc obj st = (length (heap st), st\<lparr>heap := heap st @ [obj]\<rparr>)"

definition assign_prop :: "nat \<Rightarrow> ustring \<Rightarrow> tvalue \<Rightarrow> text_state \<Rightarrow> text_state" where
  "assign_prop a k v st = st\<lparr>heap := set_at (heap st) a k v\<rparr>"

text \<open>\<open>_.remove(elementsAtDepth, (e) => e[0] >= depth)\<close>.\<close>

definition remove_deeper :: "nat \<Rightarrow> text_state \<Rightarrow> text_state" where
  "remove_deeper depth st = st\<lparr>elementsAtDepth := filter (\<lambda>e. \<not> fst e \<ge> depth) (elementsAtDepth st)\<rparr>"

text \<open>\<open>_.last(elementsAtDepth)![1]\<close>: reading \<open>[1]\<close> of \<open>undefined\<close> raises a TypeError.\<close>

definition last_element :: "text_state \<Rightarrow> js_error + element" where
  "last_element st =
     (if elementsAtDepth st = [] then Inl TypeError else Inr (snd (last (elementsAtDepth st))))"

definition push_element :: "nat \<Rightarrow> element \<Rightarrow> text_state \<Rightarrow> text_state" where
  "push_element depth e st = st\<lparr>elementsAtDepth := elementsAtDepth st @ [(depth, e)]\<rparr>"

text \<open>
  \<open>o[k].push(v)\<close>: on an array the element is added; a value that is no array has
  no \<open>push\<close>, and calling it raises a TypeError.
\<close>

definition push_to :: "nat \<Rightarrow> ustring \<Rightarrow> tvalue \<Rightarrow> text_state \<Rightarrow> js_error + text_state" where
  "push_to a k v st =
     (case get (heap st) a k of
        Some (TArr xs) \<Rightarrow> Inr (assign_prop a k (TArr (xs @ [v])) st)
      | _ \<Rightarrow> Inl TypeError)"

text \<open>\<open>if (!o[k]) o[k] = []\<close>.\<close>

definition ensure_array :: "nat \<Rightarrow> ustring \<Rightarrow> text_state \<Rightarrow> text_state" where
  "ensure_array a k st =
     (if truthy_value (get (heap st) a k) then st else assign_prop a k (TArr []) st)"

text \<open>What the surroundings of the parser do; see \<open>fromText\<close>.\<close>

record host =
  startCase :: "ustring \<Rightarrow> ustring"
  number_to_string :: "jsnum \<Rightarrow> ustring"
  parse_attributes :: "ustring \<Rightarrow> tobj \<Rightarrow> (js_error + tobj) option"

subsection \<open>The branches of a line\<close>

definition truthy_group :: "captures \<Rightarrow> nat \<Rightarrow> bool" where
  "truthy_group caps n = (case group_opt caps n of None \<Rightarrow> False | Some w \<Rightarrow> w \<noteq> [])"

text \<open>\<open>m[i] || m[j]\<close> and \<open>m[i] || m[j] || m[k]\<close>, as handed to a number parser.\<close>

definition either :: "captures \<Rightarrow> nat list \<Rightarrow> ustring" where
  "either caps ns =
     (case filter (truthy_group caps) (butlast ns) of
        n # _ \<Rightarrow> group caps n
      | [] \<Rightarrow> (case group_opt caps (last ns) of None \<Rightarrow> utf16 ''undefined'' | Some w \<Rightarrow> w))"

text \<open>The node of a node line: lines 179 to 201 of the source.\<close>

definition node_of_matches :: "captures \<Rightarrow> tobj" where
  "node_of_matches m =
     (let newNode = new_node (group m 2);
          newNode =
            (if truthy_group m 3 \<and> truthy_group m 4 \<or> truthy_group m 14 \<and> truthy_group m 15
             then put PLAN_WIDTH_name (TNum (parseInt (either m [6, 17])))
                    (put PLAN_ROWS_name (TNum (parseInt (either m [5, 16])))
                       (put TOTAL_COST_name (TNum (parseFloat (either m [4, 15])))
                          (put STARTUP_COST_name (TNum (parseFloat (either m [3, 14]))) newNode)))
             else newNode);
          newNode =
            (if truthy_group m 7 \<and> truthy_group m 8 \<or> truthy_group m 18 \<and> truthy_group m 19
             then put ACTUAL_TOTAL_TIME_name (TNum (parseFloat (either m [8, 19])))
                    (put ACTUAL_STARTUP_TIME_name (TNum (parseFloat (either m [7, 18]))) newNode)
             else newNode);
          newNode =
            (if truthy_group m 9 \<and> truthy_group m 10 \<or> truthy_group m 11 \<and> truthy_group m 12
                \<or> truthy_group m 20 \<and> truthy_group m 21
             then put ACTUAL_LOOPS_name (TNum (parseInt (either m [10, 12, 21])))
                    (put ACTUAL_ROWS_name (TNum (parseInt (either m [9, 11, 20]))) newNode)
             else newNode);
          neverExecuted = truthy_group m 13
      in if neverExecuted
         then put ACTUAL_TOTAL_TIME_name (TNum (Num 0))
                (put ACTUAL_ROWS_name (TNum (Num 0))
                   (put ACTUAL_LOOPS_name (TNum (Num 0)) newNode))
         else newNode)"

definition node_branch :: "nat \<Rightarrow> captures \<Rightarrow> text_state \<Rightarrow> js_error + text_state" where
  "node_branch depth m st =
     (let (newNode, st) = alloc (node_of_matches m) st;
          e = \<lparr>node = newNode, subelementType = Some (utf16 ''subnode''), name = None\<rparr>
      in if 0 = length (elementsAtDepth st)
         then Inr (assign_prop 0 (utf16 ''Plan'') (TRef newNode) (push_element depth e st))
         else
           let st = remove_deeper depth st in
           case last_element st of
             Inl err \<Rightarrow> Inl err
           | Inr previousElement \<Rightarrow>
               let st = push_element depth e st;
                   st = ensure_array (node previousElement) PLANS st;
                   st = (if subelementType previousElement = Some (utf16 ''initplan'')
                         then assign_prop newNode SUBPLAN_NAME
                                (case name previousElement of None \<Rightarrow> TNull | Some n \<Rightarrow> TStr n)
                                (assign_prop newNode PARENT_RELATIONSHIP (TStr (utf16 ''InitPlan'')) st)
                         else if subelementType previousElement = Some (utf16 ''subplan'')
                         then assign_prop newNode SUBPLAN_NAME
                                (case name previousElement of None \<Rightarrow> TNull | Some n \<Rightarrow> TStr n)
                                (assign_prop newNode PARENT_RELATIONSHIP (TStr (utf16 ''SubPlan'')) st)
                         else st)
               in push_to (node previousElement) (utf16 ''Plans'') (TRef newNode) st)"

definition sub_branch :: "nat \<Rightarrow> ustring \<Rightarrow> captures \<Rightarrow> text_state \<Rightarrow> js_error + text_state" where
  "sub_branch depth whole m st =
     (let st = remove_deeper depth st in
      case last_element st of
        Inl err \<Rightarrow> Inl err
      | Inr previousElement \<Rightarrow>
          Inr (push_element depth
                 \<lparr>node = node previousElement, subelementType = Some (toLowerCase (group m 2)),
                  name = Some whole\<rparr> st))"

definition cte_branch :: "nat \<Rightarrow> captures \<Rightarrow> text_state \<Rightarrow> js_error + text_state" where
  "cte_branch depth m st =
     (let st = remove_deeper depth st in
      case last_element st of
        Inl err \<Rightarrow> Inl err
      | Inr previousElement \<Rightarrow>
          Inr (push_element depth
                 \<lparr>node = node previousElement, subelementType = Some (utf16 ''initplan''),
                  name = Some (utf16 ''CTE '' @ group m 2)\<rparr> st))"

text \<open>
  \<open>parseSort\<close>: on a match it sets the three sort properties of the element and
  answers true.
\<close>

definition parseSort :: "ustring \<Rightarrow> tobj \<Rightarrow> tobj option" where
  "parseSort text el =
     (case exec False sortRegex text of
        None \<Rightarrow> None
      | Some (whole, m) \<Rightarrow>
          Some (put SORT_SPACE_TYPE (TStr (group m 3))
                 (put SORT_SPACE_USED (TStr (group m 4))
                    (put SORT_METHOD (TStr (trim (group m 2))) el))))"

text \<open>
  \<open>getWorker\<close>: the first worker of the array with the number, by strict
  equality. A string or a number in place of the array holds no worker.
\<close>

definition getWorker :: "text_state \<Rightarrow> nat \<Rightarrow> jsnum \<Rightarrow> nat option" where
  "getWorker st a workerNumber =
     (case get (heap st) a WORKERS of
        Some (TArr ws) \<Rightarrow>
          (case filter (\<lambda>w. case w of TRef b \<Rightarrow> workerNumber \<noteq> NaN
                                        \<and> get (heap st) b WORKER_NUMBER = Some (TNum workerNumber)
                              | _ \<Rightarrow> False) ws of
             TRef b # _ \<Rightarrow> Some b
           | _ \<Rightarrow> None)
      | _ \<Rightarrow> None)"

definition worker_branch :: "host \<Rightarrow> captures \<Rightarrow> text_state \<Rightarrow> js_error + text_state" where
  "worker_branch hst m st =
     (let workerNumber = parseInt (group m 2) in
      case last_element st of
        Inl err \<Rightarrow> Inl err
      | Inr previousElement \<Rightarrow>
          let st = ensure_array (node previousElement) WORKERS st in
          case (case getWorker st (node previousElement) workerNumber of
                  Some b \<Rightarrow> Inr (b, st)
                | None \<Rightarrow>
                    (let (b, st) = alloc (new_worker workerNumber) st
                     in case push_to (node previousElement) WORKERS (TRef b) st of
                          Inl err \<Rightarrow> Inl err
                        | Inr st \<Rightarrow> Inr (b, st))) of
            Inl err \<Rightarrow> Inl err
          | Inr (worker, st) \<Rightarrow>
              let st = (if truthy_group m 3 \<and> truthy_group m 4
                        then assign_prop worker ACTUAL_LOOPS_name (TNum (parseInt (either m [6])))
                               (assign_prop worker ACTUAL_ROWS_name (TNum (parseInt (either m [5])))
                                  (assign_prop worker ACTUAL_TOTAL_TIME_name (TNum (parseFloat (group m 4)))
                                     (assign_prop worker ACTUAL_STARTUP_TIME_name
                                        (TNum (parseFloat (group m 3))) st)))
                        else st)
              in case parseSort (group m 10) (heap st ! worker) of
                   Some el \<Rightarrow> Inr (st\<lparr>heap := (heap st)[worker := el]\<rparr>)
                 | None \<Rightarrow>
                     let info = truthy_pieces (split False info_split (group m 10))
                     in if group m 10 \<noteq> [] then
                          (if length info < 2 then Inr st
                           else Inr (assign_prop worker (startCase hst (info ! 0)) (TStr (info ! 1)) st))
                        else Inr st)"

definition trigger_branch :: "nat \<Rightarrow> captures \<Rightarrow> text_state \<Rightarrow> js_error + text_state" where
  "trigger_branch depth m st =
     (let st = remove_deeper depth st;
          st = ensure_array 0 (utf16 ''Triggers'') st
      in push_to 0 (utf16 ''Triggers'')
           (TObj [(utf16 ''Trigger Name'', TStr (group m 2)),
                  (utf16 ''Time'', TNum (parseFloat (replace_first False ms_unit (\<lambda>caps. []) (group m 3)))),
                  (utf16 ''Calls'', TStr (group m 4))]) st)"

text \<open>
  \<open>_.last\<close> of the \<open>Workers\<close> of a node, when it is truthy: the last worker of
  the array. The last code unit of a string is truthy too, and \<open>worker.JIT = {}\<close>
  on it raises a TypeError in strict code.
\<close>

definition jit_branch :: "nat \<Rightarrow> text_state \<Rightarrow> js_error + text_state" where
  "jit_branch depth st =
     (if length (elementsAtDepth st) = 0 then
        (let (jit, st) = alloc [] st;
             st = assign_prop 0 (utf16 ''JIT'') (TRef jit) st
         in Inr (push_element 1 \<lparr>node = jit, subelementType = None, name = None\<rparr> st))
      else
        case last_element st of
          Inl err \<Rightarrow> Inl err
        | Inr lastElement \<Rightarrow>
            (case get (heap st) (node lastElement) WORKERS of
               Some (TArr ws) \<Rightarrow>
                 (if ws = [] then Inr st
                  else case last ws of
                         TRef worker \<Rightarrow>
                           (let (jit, st) = alloc [] st;
                                st = assign_prop worker (utf16 ''JIT'') (TRef jit) st
                            in Inr (push_element depth
                                      \<lparr>node = jit, subelementType = None, name = None\<rparr> st))
                       | _ \<Rightarrow> Inl TypeError)
             | Some (TStr s) \<Rightarrow> (if s = [] then Inr st else Inl TypeError)
             | _ \<Rightarrow> Inr st))"

text \<open>
  The value of \<open>element['Query Text'] += '\n' + line\<close>: a string grows, a number
  is turned into a string first.
\<close>

definition to_text :: "host \<Rightarrow> tvalue \<Rightarrow> ustring" where
  "to_text hst v =
     (case v of
        TStr s \<Rightarrow> s
      | TNum x \<Rightarrow> number_to_string hst x
      | TNull \<Rightarrow> utf16 ''null''
      | TArr xs \<Rightarrow> []
      | _ \<Rightarrow> utf16 ''[object Object]'')"

definition extra_branch :: "host \<Rightarrow> nat \<Rightarrow> ustring \<Rightarrow> captures \<Rightarrow> text_state \<Rightarrow> js_error + text_state" where
  "extra_branch hst depth line m st =
     (let st = remove_deeper depth st;
          el = (if length (elementsAtDepth st) = 0 then 0 else node (snd (last (elementsAtDepth st))))
      in if \<not> truthy_value (get (heap st) el (utf16 ''Plan''))
            \<and> truthy_value (get (heap st) el (utf16 ''Query Text''))
         then Inr (assign_prop el (utf16 ''Query Text'')
                     (TStr (to_text hst (the (get (heap st) el (utf16 ''Query Text''))) @ [LF] @ line)) st)
         else
           let info = truthy_pieces (split False info_split (group m 2))
           in if length info < 2 then Inr st
              else case parseSort (group m 2) (heap st ! el) of
                     Some obj \<Rightarrow> Inr (st\<lparr>heap := (heap st)[el := obj]\<rparr>)
                   | None \<Rightarrow>
                       (case parse_attributes hst (group m 2) (heap st ! el) of
                          Some (Inl err) \<Rightarrow> Inl err
                        | Some (Inr obj) \<Rightarrow> Inr (st\<lparr>heap := (heap st)[el := obj]\<rparr>)
                        | None \<Rightarrow>
                            let v = replace_first False ms_unit (\<lambda>caps. []) (info ! 1);
                                val = (if truthy (Some (parseFloat v)) then TNum (parseFloat v) else TStr v);
                                property = (if is_sub (utf16 '' runtime'') (info ! 0)
                                               \<or> is_sub (utf16 '' time'') (info ! 0)
                                            then startCase hst (info ! 0) else info ! 0)
                            in Inr (assign_prop el property val st)))"

subsection \<open>fromText\<close>

text \<open>
  One logical line. The three replacements and the indentation come first; then
  every pattern is tried and the first branch whose condition holds is taken.
\<close>

definition process_line :: "host \<Rightarrow> ustring \<Rightarrow> text_state \<Rightarrow> js_error + text_state" where
  "process_line hst line0 st =
     (let line = replace_first False (seq [lit 34, spaces, Eol]) (\<lambda>caps. []) line0;
          line = replace_first False (seq [Bol, spaces, lit 34]) (\<lambda>caps. []) line;
          line = replace_all True (lit 9) (\<lambda>caps. utf16 ''    '') line;
          depth = (case exec False (seq [Bol, spaces]) line of None \<Rightarrow> 0 | Some (w, caps) \<Rightarrow> length w);
          line = replace_first False (seq [Bol, spaces]) (\<lambda>caps. []) line;
          emptyLineMatches = exec False emptyLineRegex line;
          headerMatches = exec False headerRegex line;
          nodeMatches = exec True nodeRegex line;
          subMatches = exec True subRegex line;
          cteMatches = exec False cteRegex line;
          triggerMatches = exec False triggerRegex line;
          workerMatches = exec False workerRegex line;
          jitMatches = exec False jitRegex line;
          extraMatches = exec False extraRegex line
      in if emptyLineMatches \<noteq> None \<or> headerMatches \<noteq> None then Inr st
         else if nodeMatches \<noteq> None \<and> cteMatches = None \<and> subMatches = None
         then node_branch depth (snd (the nodeMatches)) st
         else if subMatches \<noteq> None
         then sub_branch depth (fst (the subMatches)) (snd (the subMatches)) st
         else if cteMatches \<noteq> None then cte_branch depth (snd (the cteMatches)) st
         else if workerMatches \<noteq> None then worker_branch hst (snd (the workerMatches)) st
         else if triggerMatches \<noteq> None then trigger_branch depth (snd (the triggerMatches)) st
         else if jitMatches \<noteq> None then jit_branch depth st
         else if extraMatches \<noteq> None then extra_branch hst depth line (snd (the extraMatches)) st
         else Inr st)"

fun process_lines :: "host \<Rightarrow> ustring list \<Rightarrow> text_state \<Rightarrow> js_error + text_state" where
  "process_lines hst [] st = Inr st"
| "process_lines hst (line # lines) st =
     (case process_line hst line st of
        Inl err \<Rightarrow> Inl err
      | Inr st' \<Rightarrow> process_lines hst lines st')"

text \<open>
  \<open>fromText\<close>: \<open>root\<close> starts as an object whose \<open>Plan\<close> is \<open>null\<close>; after the
  lines, a falsy \<open>root.Plan\<close> raises the parse failure, and otherwise \<open>root\<close> is
  returned, here with the store it lives in.

  The parser depends on its surroundings in three places, which are the
  parameter \<open>hst\<close>: \<open>_.startCase\<close> of lodash, the conversion of a number to a
  string, and the eight attribute parsers behind \<open>parseSort\<close> (\<open>parseBuffers\<close>
  to \<open>parseSortKey\<close>, with \<open>JSON.parse\<close> and the helper \<open>splitBalanced\<close> they
  call). These parsers read the text they are given and write to the one element
  they are given; \<open>parse_attributes\<close> stands for any such behaviour: no answer
  when none of them takes the line, or else the element as it is left or the
  exception thrown. What is proved about \<open>fromText\<close> holds whatever they do.
\<close>

definition initial_text_state :: text_state where
  "initial_text_state = \<lparr>heap = [[(utf16 ''Plan'', TNull)]], elementsAtDepth = []\<rparr>"

definition fromText :: "host \<Rightarrow> ustring \<Rightarrow> js_error + tobj list" where
  "fromText hst text =
     (case process_lines hst (splitIntoLines text) initial_text_state of
        Inl err \<Rightarrow> Inl err
      | Inr st \<Rightarrow>
          if \<not> truthy_value (get (heap st) 0 (utf16 ''Plan'')) then Inl ParseFailure
          else Inr (heap st))"

text \<open>The node under \<open>root.Plan\<close> in a store, for reading a result.\<close>

definition root_plan :: "tobj list \<Rightarrow> tobj option" where
  "root_plan h = (case get h 0 (utf16 ''Plan'') of Some (TRef a) \<Rightarrow> Some (h ! a) | _ \<Rightarrow> None)"

subsection \<open>Example texts\<close>

text \<open>
  A node line that was never executed, with its estimate and without it (as
  under \<open>COSTS OFF\<close>); a plan of one node; two node lines with the same
  indentation; a text without any node line.
\<close>

definition never_executed_line :: ustring where
  "never_executed_line =
     utf16 ''  ->  Index Scan using i on t (cost=0.00..8.00 rows=1 width=4) (never executed)''"

definition never_executed_costs_off :: ustring where
  "never_executed_costs_off = utf16 ''  ->  Index Scan using i on t (never executed)''"

definition one_node :: ustring where
  "one_node = utf16 '' Seq Scan on a  (cost=0.00..1.00 rows=1 width=4)''"

definition two_nodes_same_depth :: ustring where
  "two_nodes_same_depth =
     utf16 '' Seq Scan on a  (cost=0.00..1.00 rows=1 width=4)'' @ [LF]
     @ utf16 '' Seq Scan on b  (cost=0.00..1.00 rows=1 width=4)''"

definition no_node :: ustring where
  "no_node = utf16 ''no plan here''"

text \<open>The properties of the node under \<open>root.Plan\<close> of a result, by name.\<close>

definition plan_properties :: "js_error + tobj list \<Rightarrow> ustring list \<Rightarrow> tvalue option list option" where
  "plan_properties result names =
     (case result of
        Inl err \<Rightarrow> None
      | Inr h \<Rightarrow> map_option (\<lambda>n. map (map_of n) names) (root_plan h))"

section \<open>Properties of the enrichment pass\<close>


lemma getp_setp [simp]: "getp (setp p k v) k' = (if k' = k then v else getp p k')"
  by (simp add: getp_def setp_def)

lemma setp_fields [simp]:
  "node_type (setp p k v) = node_type p"
  "nodeId (setp p k v) = nodeId p"
  "parent_relationship (setp p k v) = parent_relationship p"
  "subplan_name (setp p k v) = subplan_name p"
  "planner_estimate_direction (setp p k v) = planner_estimate_direction p"
  by (simp_all add: setp_def)

lemma getp_fields [simp]:
  "getp (p\<lparr>planner_estimate_direction := d\<rparr>) k = getp p k"
  "getp (p\<lparr>nodeId := i\<rparr>) k = getp p k"
  by (simp_all add: getp_def)

lemma isCTE_setp [simp]: "isCTE (setp p k v) = isCTE p"
  by (simp add: isCTE_def)

subsection \<open>What each step writes\<close>

lemma writes_refl: "writes S p p"
  by (simp add: writes_def)

lemma writes_setp: "k \<in> S \<Longrightarrow> writes S p (setp p k v)"
  by (auto simp: writes_def)

lemma writes_trans: "writes S p p' \<Longrightarrow> writes S p' p'' \<Longrightarrow> writes S p p''"
  by (auto simp: writes_def)

lemma writes_mono: "writes S p p' \<Longrightarrow> S \<subseteq> T \<Longrightarrow> writes T p p'"
  by (auto simp: writes_def)

lemma writes_fold:
  assumes "\<And>x q. x \<in> set xs \<Longrightarrow> writes S q (f x q)"
  shows "writes S p (fold f xs p)"
  using assms
proof (induction xs arbitrary: p)
  case Nil
  then show ?case by (simp add: writes_refl)
next
  case (Cons x xs)
  have "writes S p (f x p)" using Cons.prems by simp
  moreover have "writes S (f x p) (fold f xs (f x p))" using Cons by simp
  ultimately show ?case using writes_trans by fastforce
qed

lemma writes_actual_duration: "writes duration_keys p (actual_duration p cs)"
  by (auto simp: actual_duration_def Let_def scale_by_loops_def writes_def duration_keys_def)

lemma writes_subtract_cost: "writes {EXCLUSIVE_COST} q (subtract_cost c q)"
  by (auto simp: subtract_cost_def writes_def)

lemma writes_actual_cost: "writes {EXCLUSIVE_COST} p (actual_cost p cs)"
proof -
  let ?p1 = "if truthy (getp p TOTAL_COST) then setp p EXCLUSIVE_COST (getp p TOTAL_COST) else p"
  have 1: "writes {EXCLUSIVE_COST} p ?p1" by (auto simp: writes_def)
  have 2: "writes {EXCLUSIVE_COST} ?p1 (fold subtract_cost cs ?p1)"
    by (rule writes_fold) (rule writes_subtract_cost)
  have 3: "writes {EXCLUSIVE_COST} p (fold subtract_cost cs ?p1)"
    using writes_trans [OF 1 2] .
  show ?thesis
    unfolding actual_cost_def Let_def
    using 3 by (auto simp: writes_def)
qed

lemma writes_revise:
  "k \<in> {ACTUAL_ROWS, PLAN_ROWS, ROWS_REMOVED_BY_FILTER, ROWS_REMOVED_BY_JOIN_FILTER} \<Longrightarrow>
   writes revised_keys q (revise k q)"
  by (auto simp: revise_def Let_def writes_def revised_keys_def)

lemma writes_exclusive_of: "k \<in> set properties \<Longrightarrow> writes exclusive_keys q (exclusive_of cs k q)"
  by (auto simp: exclusive_of_def Let_def writes_def exclusive_keys_def)

lemma writes_calculateActuals:
  "writes (duration_keys \<union> {EXCLUSIVE_COST} \<union> revised_keys) (props n) (props (calculateActuals n))"
proof -
  let ?S = "duration_keys \<union> {EXCLUSIVE_COST} \<union> revised_keys"
  let ?p1 = "actual_duration (props n) (Plans n)"
  let ?p2 = "actual_cost ?p1 (Plans n)"
  let ?ks = "[ACTUAL_ROWS, PLAN_ROWS, ROWS_REMOVED_BY_FILTER, ROWS_REMOVED_BY_JOIN_FILTER]"
  have 1: "writes ?S (props n) ?p1"
    by (rule writes_mono [OF writes_actual_duration]) auto
  have 2: "writes ?S ?p1 ?p2"
    by (rule writes_mono [OF writes_actual_cost]) auto
  have 3: "writes ?S ?p2 (fold revise ?ks ?p2)"
    by (rule writes_fold) (rule writes_mono [OF writes_revise], auto)
  show ?thesis
    unfolding calculateActuals_def Let_def
    using writes_trans [OF writes_trans [OF 1 2] 3] by simp
qed

lemma writes_calculateExclusives:
  "writes exclusive_keys (props n) (props (calculateExclusives n))"
  unfolding calculateExclusives_def
  by (simp, rule writes_fold, rule writes_exclusive_of)

lemma Plans_calculateActuals [simp]: "Plans (calculateActuals n) = Plans n"
  by (simp add: calculateActuals_def Let_def)

lemma Plans_calculateExclusives [simp]: "Plans (calculateExclusives n) = Plans n"
  by (simp add: calculateExclusives_def)

lemma writes_post:
  "writes enrich_keys (props n) (props (calculateExclusives (calculateActuals n)))"
proof -
  have 1: "writes enrich_keys (props n) (props (calculateActuals n))"
    by (rule writes_mono [OF writes_calculateActuals]) (auto simp: enrich_keys_def)
  have 2: "writes enrich_keys (props (calculateActuals n))
             (props (calculateExclusives (calculateActuals n)))"
    by (rule writes_mono [OF writes_calculateExclusives]) (auto simp: enrich_keys_def)
  show ?thesis using writes_trans [OF 1 2] .
qed

subsection \<open>Shape of processNode\<close>

lemma processNode_root:
  assumes "processNode nid (Node p cs) = (n', pushed, nid')"
  shows "\<exists>cs'. processNode_each (calculatePlannerEstimate (p\<lparr>nodeId := Some nid\<rparr>)) (Suc nid) cs
            = (cs', pushed, nid')
         \<and> n' = calculateExclusives (calculateActuals
                  (Node (calculatePlannerEstimate (p\<lparr>nodeId := Some nid\<rparr>))
                        (filter (\<lambda>child. \<not> isCTE (props child)) cs')))"
  using assms by (auto simp: processNode.simps Let_def split: prod.splits)

declare processNode.simps [simp del]

lemma writes_calculatePlannerEstimate:
  "node_type (calculatePlannerEstimate p) = node_type p \<and>
   nodeId (calculatePlannerEstimate p) = nodeId p \<and>
   parent_relationship (calculatePlannerEstimate p) = parent_relationship p \<and>
   subplan_name (calculatePlannerEstimate p) = subplan_name p \<and>
   (\<forall>k. k \<noteq> PLANNER_ESTIMATE_FACTOR \<longrightarrow> getp (calculatePlannerEstimate p) k = getp p k)"
  by (simp add: calculatePlannerEstimate_def Let_def)

lemma processNode_fields:
  assumes "processNode nid (Node p cs) = (n', pushed, nid')"
  shows "node_type (props n') = node_type p" "nodeId (props n') = Some nid"
    "parent_relationship (props n') = parent_relationship p"
    "subplan_name (props n') = subplan_name p"
    "k \<notin> enrich_keys \<Longrightarrow> k \<noteq> PLANNER_ESTIMATE_FACTOR \<Longrightarrow> getp (props n') k = getp p k"
proof -
  let ?p1 = "calculatePlannerEstimate (p\<lparr>nodeId := Some nid\<rparr>)"
  obtain cs' where n': "n' = calculateExclusives (calculateActuals
       (Node ?p1 (filter (\<lambda>child. \<not> isCTE (props child)) cs')))"
    using processNode_root [OF assms] by blast
  have w: "writes enrich_keys ?p1 (props n')"
    unfolding n' using writes_post [of "Node ?p1 (filter (\<lambda>child. \<not> isCTE (props child)) cs')"] by simp
  note e = writes_calculatePlannerEstimate [of "p\<lparr>nodeId := Some nid\<rparr>"]
  show "node_type (props n') = node_type p" using w e by (simp add: writes_def)
  show "nodeId (props n') = Some nid" using w e by (simp add: writes_def)
  show "parent_relationship (props n') = parent_relationship p" using w e by (simp add: writes_def)
  show "subplan_name (props n') = subplan_name p" using w e by (simp add: writes_def)
  show "k \<notin> enrich_keys \<Longrightarrow> k \<noteq> PLANNER_ESTIMATE_FACTOR \<Longrightarrow> getp (props n') k = getp p k"
    using w e by (simp add: writes_def)
qed

lemma processNode_isCTE:
  assumes "processNode nid (Node p cs) = (n', pushed, nid')"
  shows "isCTE (props n') = isCTE p"
  using processNode_fields(3,4) [OF assms] by (simp add: isCTE_def)

lemma flat_Plans: "flat n = n # concat (map flat (Plans n))"
  by (cases n) simp

lemma disseminate_fields [simp]:
  "node_type (disseminate p q) = node_type q"
  "parent_relationship (disseminate p q) = parent_relationship q"
  "subplan_name (disseminate p q) = subplan_name q"
  "isCTE (disseminate p q) = isCTE q"
  by (simp_all add: disseminate_def)

lemma node_key_Node [simp]: "node_key (Node q gs) = (node_type q, isCTE q)"
  by (simp add: node_key_def)

lemma processNode_each_Cons:
  assumes "processNode_each p nid (Node q gs # rest) = (cs', pushed, nid')"
  shows "\<exists>child' below nid1 rest' pushed2.
      processNode nid (Node (disseminate p q) gs) = (child', below, nid1) \<and>
      processNode_each p nid1 rest = (rest', pushed2, nid') \<and>
      cs' = child' # rest' \<and>
      pushed = (if isCTE q then [child'] else []) @ below @ pushed2"
  using assms by (auto simp: processNode_each.simps Let_def split: prod.splits)

declare processNode_each.simps(2) [simp del]

lemma process_ids:
  "processNode nid n = (n', pushed, nid') \<Longrightarrow>
     nid' = nid + length (flat n) \<and>
     mset (map node_tag (flat n' @ concat (map flat pushed)))
       = mset (map tag_of (enumerate nid (map node_key (flat n)))) \<and>
     map node_tag pushed
       = map tag_of (filter (\<lambda>e. snd (snd e)) (enumerate (Suc nid) (tl (map node_key (flat n)))))"
  and "processNode_each p nid cs = (cs', pushed, nid') \<Longrightarrow>
     nid' = nid + length (concat (map flat cs)) \<and>
     mset (map node_tag (concat (map flat (filter (\<lambda>c. \<not> isCTE (props c)) cs'))
                    @ concat (map flat pushed)))
       = mset (map tag_of (enumerate nid (map node_key (concat (map flat cs))))) \<and>
     map node_tag pushed
       = map tag_of (filter (\<lambda>e. snd (snd e)) (enumerate nid (map node_key (concat (map flat cs)))))"
proof (induction nid n and p nid cs arbitrary: n' pushed nid' and cs' pushed nid'
       rule: processNode_processNode_each.induct)
  case (1 nid p cs)
  let ?p1 = "calculatePlannerEstimate (p\<lparr>nodeId := Some nid\<rparr>)"
  obtain cs' where each: "processNode_each ?p1 (Suc nid) cs = (cs', pushed, nid')"
    and n': "n' = calculateExclusives (calculateActuals
                  (Node ?p1 (filter (\<lambda>child. \<not> isCTE (props child)) cs')))"
    using processNode_root [OF "1.prems"] by blast
  note ih = "1.IH" [OF refl each]
  have fl: "flat n' = n' # concat (map flat (filter (\<lambda>child. \<not> isCTE (props child)) cs'))"
    by (subst flat_Plans) (simp add: n')
  have tg: "node_tag n' = (Some nid, node_type p)"
    using processNode_fields(1,2) [OF "1.prems"] by (simp add: node_tag_def)
  show ?case
    using ih by (simp add: fl tg tag_of_def)
next
  case (2 p nid)
  then show ?case by simp
next
  case (3 p nid q gs rest)
  obtain child' below nid1 rest' pushed2 where
    c: "processNode nid (Node (disseminate p q) gs) = (child', below, nid1)" and
    r: "processNode_each p nid1 rest = (rest', pushed2, nid')" and
    cs': "cs' = child' # rest'" and
    pushed: "pushed = (if isCTE q then [child'] else []) @ below @ pushed2"
    using processNode_each_Cons [OF "3.prems"] by blast
  note ih1 = "3.IH"(1) [OF refl c]
  note ih2 = "3.IH"(2) [OF refl c [symmetric] refl refl r]
  have ih2': "nid' = nid1 + length (concat (map flat rest)) \<and>
     mset (map node_tag (concat (map flat (filter (\<lambda>c. \<not> isCTE (props c)) rest'))
                    @ concat (map flat pushed2)))
       = mset (map tag_of (enumerate nid1 (map node_key (concat (map flat rest))))) \<and>
     map node_tag pushed2
       = map tag_of (filter (\<lambda>e. snd (snd e)) (enumerate nid1 (map node_key (concat (map flat rest)))))"
    using ih2 c by simp
  have cte: "isCTE (props child') = isCTE q"
    using processNode_isCTE [OF c] by simp
  have tg: "node_tag child' = (Some nid, node_type q)"
    using processNode_fields(1,2) [OF c] by (simp add: node_tag_def)
  have nid1: "nid1 = Suc (nid + length (concat (map flat gs)))"
    using ih1 by simp
  have m1: "mset (map node_tag (flat child' @ concat (map flat below)))
       = mset (map tag_of (enumerate nid (map node_key (flat (Node q gs)))))"
    using ih1 by simp
  have l1: "map node_tag below
       = map tag_of (filter (\<lambda>e. snd (snd e)) (enumerate (Suc nid) (map node_key (concat (map flat gs)))))"
    using ih1 by simp
  have g1: "nid' = nid + length (concat (map flat (Node q gs # rest)))"
    using ih2' nid1 by simp
  have g2: "mset (map node_tag (concat (map flat (filter (\<lambda>c. \<not> isCTE (props c)) cs'))
                    @ concat (map flat pushed)))
       = mset (map node_tag (flat child' @ concat (map flat below))) +
         mset (map node_tag (concat (map flat (filter (\<lambda>c. \<not> isCTE (props c)) rest'))
                    @ concat (map flat pushed2)))"
    by (simp add: cs' pushed cte)
  have g2': "mset (map tag_of (enumerate nid (map node_key (concat (map flat (Node q gs # rest))))))
       = mset (map tag_of (enumerate nid (map node_key (flat (Node q gs))))) +
         mset (map tag_of (enumerate nid1 (map node_key (concat (map flat rest)))))"
    by (simp add: enumerate_append_eq nid1)
  have g3: "map node_tag pushed
       = map tag_of (filter (\<lambda>e. snd (snd e))
           (enumerate nid (map node_key (concat (map flat (Node q gs # rest))))))"
    using l1 ih2' by (simp add: pushed enumerate_append_eq nid1 tg tag_of_def)
  show ?case
    using g1 g2 g2' g3 m1 ih2' by simp
qed

subsection \<open>Children of every enriched node\<close>

lemma enrich_keys_workers:
  "WORKERS_PLANNED \<notin> enrich_keys" "WORKERS_PLANNED_BY_GATHER \<notin> enrich_keys"
  by (auto simp: enrich_keys_def duration_keys_def revised_keys_def exclusive_keys_def
      properties_def)

lemma process_children_ok:
  "processNode nid n = (n', pushed, nid') \<Longrightarrow>
     (\<forall>m \<in> set (flat n' @ concat (map flat pushed)). child_ok m)"
  and "processNode_each p nid cs = (cs', pushed, nid') \<Longrightarrow>
     (\<forall>c \<in> set cs'.
        parent_relationship (props c) \<noteq> Some ''InitPlan'' \<and>
        parent_relationship (props c) \<noteq> Some ''SubPlan'' \<longrightarrow>
        getp (props c) WORKERS_PLANNED_BY_GATHER
          = js_or (getp p WORKERS_PLANNED) (getp p WORKERS_PLANNED_BY_GATHER)) \<and>
     (\<forall>m \<in> set (concat (map flat cs') @ concat (map flat pushed)). child_ok m)"
proof (induction nid n and p nid cs arbitrary: n' pushed nid' and cs' pushed nid'
       rule: processNode_processNode_each.induct)
  case (1 nid p cs)
  let ?p1 = "calculatePlannerEstimate (p\<lparr>nodeId := Some nid\<rparr>)"
  obtain cs' where each: "processNode_each ?p1 (Suc nid) cs = (cs', pushed, nid')"
    and n': "n' = calculateExclusives (calculateActuals
                  (Node ?p1 (filter (\<lambda>child. \<not> isCTE (props child)) cs')))"
    using processNode_root [OF "1.prems"] by blast
  note ih = "1.IH" [OF refl each]
  have pl: "Plans n' = filter (\<lambda>child. \<not> isCTE (props child)) cs'"
    by (simp add: n')
  have fl: "flat n' = n' # concat (map flat (filter (\<lambda>child. \<not> isCTE (props child)) cs'))"
    by (subst flat_Plans) (simp add: n')
  have w: "getp (props n') WORKERS_PLANNED = getp ?p1 WORKERS_PLANNED"
     "getp (props n') WORKERS_PLANNED_BY_GATHER = getp ?p1 WORKERS_PLANNED_BY_GATHER"
    using processNode_fields(5) [OF "1.prems" enrich_keys_workers(1)]
      processNode_fields(5) [OF "1.prems" enrich_keys_workers(2)]
      writes_calculatePlannerEstimate [of "p\<lparr>nodeId := Some nid\<rparr>"] by simp_all
  have root: "child_ok n'"
    unfolding child_ok_def pl w using ih by simp
  have sub: "set (concat (map flat (filter (\<lambda>child. \<not> isCTE (props child)) cs')))
      \<subseteq> set (concat (map flat cs'))" by auto
  show ?case
  proof
    fix m assume "m \<in> set (flat n' @ concat (map flat pushed))"
    then have "m = n' \<or> m \<in> set (concat (map flat cs') @ concat (map flat pushed))"
      unfolding fl using sub by auto
    then show "child_ok m" using root ih by blast
  qed
next
  case (2 p nid)
  then show ?case by simp
next
  case (3 p nid q gs rest)
  obtain child' below nid1 rest' pushed2 where
    c: "processNode nid (Node (disseminate p q) gs) = (child', below, nid1)" and
    r: "processNode_each p nid1 rest = (rest', pushed2, nid')" and
    cs': "cs' = child' # rest'" and
    pushed: "pushed = (if isCTE q then [child'] else []) @ below @ pushed2"
    using processNode_each_Cons [OF "3.prems"] by blast
  note ih1 = "3.IH"(1) [OF refl c]
  have ih2: "(\<forall>c \<in> set rest'.
        parent_relationship (props c) \<noteq> Some ''InitPlan'' \<and>
        parent_relationship (props c) \<noteq> Some ''SubPlan'' \<longrightarrow>
        getp (props c) WORKERS_PLANNED_BY_GATHER
          = js_or (getp p WORKERS_PLANNED) (getp p WORKERS_PLANNED_BY_GATHER)) \<and>
     (\<forall>m \<in> set (concat (map flat rest') @ concat (map flat pushed2)). child_ok m)"
    by (rule "3.IH"(2) [OF refl c [symmetric] refl refl r])
  have rel: "parent_relationship (props child') = parent_relationship q"
    using processNode_fields(3) [OF c] by simp
  have wp: "getp (props child') WORKERS_PLANNED_BY_GATHER
       = getp (disseminate p q) WORKERS_PLANNED_BY_GATHER"
    using processNode_fields(5) [OF c enrich_keys_workers(2)] by simp
  have head: "parent_relationship (props child') \<noteq> Some ''InitPlan'' \<and>
        parent_relationship (props child') \<noteq> Some ''SubPlan'' \<longrightarrow>
        getp (props child') WORKERS_PLANNED_BY_GATHER
          = js_or (getp p WORKERS_PLANNED) (getp p WORKERS_PLANNED_BY_GATHER)"
    unfolding rel wp by (simp add: disseminate_def isCTE_def)
  have mem: "set (concat (map flat cs') @ concat (map flat pushed))
     \<subseteq> set (flat child' @ concat (map flat below))
       \<union> set (concat (map flat rest') @ concat (map flat pushed2))"
    by (auto simp: cs' pushed)
  show ?case
  proof (intro conjI ballI)
    fix c assume "c \<in> set cs'"
    then show "parent_relationship (props c) \<noteq> Some ''InitPlan'' \<and>
        parent_relationship (props c) \<noteq> Some ''SubPlan'' \<longrightarrow>
        getp (props c) WORKERS_PLANNED_BY_GATHER
          = js_or (getp p WORKERS_PLANNED) (getp p WORKERS_PLANNED_BY_GATHER)"
      using head ih2 unfolding cs' by (cases "c = child'") simp_all
  next
    fix m assume "m \<in> set (concat (map flat cs') @ concat (map flat pushed))"
    then have "m \<in> set (flat child' @ concat (map flat below))
       \<or> m \<in> set (concat (map flat rest') @ concat (map flat pushed2))"
      using mem by blast
    then show "child_ok m" using ih1 ih2 by blast
  qed
qed

lemma descendants_child:
  "c \<in> set (concat (map flat (Plans n))) \<Longrightarrow> \<exists>m \<in> set (flat n). c \<in> set (Plans m)"
proof (induction n arbitrary: c)
  case (Node p cs)
  from Node.prems obtain d where d: "d \<in> set cs" "c \<in> set (flat d)" by auto
  show ?case
  proof (cases "c = d")
    case True
    then show ?thesis using d by auto
  next
    case False
    then have "c \<in> set (concat (map flat (Plans d)))"
      using d(2) by (subst (asm) flat_Plans) simp
    then obtain m where "m \<in> set (flat d)" "c \<in> set (Plans m)"
      using Node.IH [OF d(1)] by blast
    then show ?thesis using d(1) by auto
  qed
qed

lemma childrenDuration_fold:
  "childrenDuration n d = fold (\<lambda>child acc. js_add acc (duration_of child)) (counted n) d"
  "childrenDuration_each cs d = fold (\<lambda>child acc. js_add acc (duration_of child)) (counted_each cs) d"
  by (induction n d and cs d rule: childrenDuration_childrenDuration_each.induct)
     (simp_all add: duration_of_def)

lemma actual_duration_eval:
  assumes "getp p ACTUAL_TOTAL_TIME \<noteq> None"
  shows "getp (actual_duration p cs) ACTUAL_TOTAL_TIME = Some (scaled p ACTUAL_TOTAL_TIME)"
    "getp (actual_duration p cs) ACTUAL_STARTUP_TIME = Some (scaled p ACTUAL_STARTUP_TIME)"
    "getp (actual_duration p cs) EXCLUSIVE_DURATION
       = Some (clamp0 (js_sub (scaled p ACTUAL_TOTAL_TIME) (childrenDuration_each cs (Num 0))))"
  using assms
  by (simp_all add: actual_duration_def Let_def scale_by_loops_def scaled_def clamp0_def)

lemma duration_keys_other:
  "k \<in> duration_keys \<Longrightarrow> k \<notin> {EXCLUSIVE_COST} \<union> revised_keys \<union> exclusive_keys"
  by (auto simp: duration_keys_def revised_keys_def exclusive_keys_def properties_def)

lemma calculateActuals_props:
  "props (calculateActuals n) =
     fold revise [ACTUAL_ROWS, PLAN_ROWS, ROWS_REMOVED_BY_FILTER, ROWS_REMOVED_BY_JOIN_FILTER]
       (actual_cost (actual_duration (props n) (Plans n)) (Plans n))"
  by (simp add: calculateActuals_def Let_def)

lemma getp_post_duration:
  assumes "k \<in> duration_keys"
  shows "getp (props (calculateExclusives (calculateActuals n))) k
           = getp (actual_duration (props n) (Plans n)) k"
proof -
  let ?p1 = "actual_duration (props n) (Plans n)"
  let ?p2 = "actual_cost ?p1 (Plans n)"
  let ?ks = "[ACTUAL_ROWS, PLAN_ROWS, ROWS_REMOVED_BY_FILTER, ROWS_REMOVED_BY_JOIN_FILTER]"
  let ?S = "{EXCLUSIVE_COST} \<union> revised_keys \<union> exclusive_keys"
  have 2: "writes ?S ?p1 ?p2"
    by (rule writes_mono [OF writes_actual_cost]) auto
  have 3: "writes ?S ?p2 (fold revise ?ks ?p2)"
    by (rule writes_fold) (rule writes_mono [OF writes_revise], auto)
  have 4: "writes ?S (props (calculateActuals n)) (props (calculateExclusives (calculateActuals n)))"
    by (rule writes_mono [OF writes_calculateExclusives]) auto
  have "writes ?S ?p1 (props (calculateExclusives (calculateActuals n)))"
    using writes_trans [OF writes_trans [OF 2 3]] 4 by (simp add: calculateActuals_props)
  then show ?thesis using duration_keys_other [OF assms] by (simp add: writes_def)
qed

lemma processNode_duration:
  assumes "getp p ACTUAL_TOTAL_TIME \<noteq> None"
  shows "getp (props (fst (processNode nid (Node p cs)))) ACTUAL_TOTAL_TIME
           = Some (scaled p ACTUAL_TOTAL_TIME)"
    "getp (props (fst (processNode nid (Node p cs)))) ACTUAL_STARTUP_TIME
           = Some (scaled p ACTUAL_STARTUP_TIME)"
    "getp (props (fst (processNode nid (Node p cs)))) EXCLUSIVE_DURATION
           = Some (clamp0 (js_sub (scaled p ACTUAL_TOTAL_TIME)
               (fold (\<lambda>child acc. js_add acc (duration_of child))
                  (counted (fst (processNode nid (Node p cs)))) (Num 0))))"
proof -
  obtain n' pushed nid' where pn: "processNode nid (Node p cs) = (n', pushed, nid')"
    by (cases "processNode nid (Node p cs)") auto
  let ?p1 = "calculatePlannerEstimate (p\<lparr>nodeId := Some nid\<rparr>)"
  obtain cs' where n': "n' = calculateExclusives (calculateActuals
       (Node ?p1 (filter (\<lambda>child. \<not> isCTE (props child)) cs')))"
    using processNode_root [OF pn] by blast
  let ?kept = "filter (\<lambda>child. \<not> isCTE (props child)) cs'"
  have e: "\<And>k. k \<noteq> PLANNER_ESTIMATE_FACTOR \<Longrightarrow> getp ?p1 k = getp p k"
    using writes_calculatePlannerEstimate [of "p\<lparr>nodeId := Some nid\<rparr>"] by simp
  have sc: "\<And>k. k \<noteq> PLANNER_ESTIMATE_FACTOR \<Longrightarrow> scaled ?p1 k = scaled p k"
    by (simp add: scaled_def e)
  have d: "\<And>k. k \<in> duration_keys \<Longrightarrow> getp (props n') k = getp (actual_duration ?p1 ?kept) k"
    unfolding n' using getp_post_duration [of _ "Node ?p1 ?kept"] by simp
  have a: "getp ?p1 ACTUAL_TOTAL_TIME \<noteq> None" using assms by (simp add: e)
  have c: "counted n' = counted_each ?kept"
    by (cases n') (simp add: n' calculateExclusives_def calculateActuals_def Let_def)
  show "getp (props (fst (processNode nid (Node p cs)))) ACTUAL_TOTAL_TIME
           = Some (scaled p ACTUAL_TOTAL_TIME)"
    using d [of ACTUAL_TOTAL_TIME] actual_duration_eval(1) [OF a] sc
    by (simp add: pn duration_keys_def)
  show "getp (props (fst (processNode nid (Node p cs)))) ACTUAL_STARTUP_TIME
           = Some (scaled p ACTUAL_STARTUP_TIME)"
    using d [of ACTUAL_STARTUP_TIME] actual_duration_eval(2) [OF a] sc
    by (simp add: pn duration_keys_def)
  show "getp (props (fst (processNode nid (Node p cs)))) EXCLUSIVE_DURATION
           = Some (clamp0 (js_sub (scaled p ACTUAL_TOTAL_TIME)
               (fold (\<lambda>child acc. js_add acc (duration_of child))
                  (counted (fst (processNode nid (Node p cs)))) (Num 0))))"
    using d [of EXCLUSIVE_DURATION] actual_duration_eval(3) [OF a] sc
    by (simp add: pn duration_keys_def c childrenDuration_fold)
qed

subsection \<open>Exclusive counters\<close>

lemma fold_exclusive_of:
  assumes "k \<in> set properties"
  shows "getp (fold (exclusive_of cs) properties p) (exclusive k)
           = Some (js_sub (to_num (getp p k)) (sumBy cs (counter_of k)))"
  using assms
  by (auto simp: properties_def exclusive_of_def Let_def counter_of_def [abs_def])

lemma processNode_each_preserves:
  assumes "processNode_each p nid cs = (cs', pushed, nid')"
    and "k \<notin> enrich_keys" "k \<noteq> PLANNER_ESTIMATE_FACTOR" "k \<noteq> WORKERS_PLANNED_BY_GATHER"
  shows "map (\<lambda>c. (isCTE (props c), getp (props c) k)) cs'
           = map (\<lambda>c. (isCTE (props c), getp (props c) k)) cs"
  using assms(1)
proof (induction cs arbitrary: nid cs' pushed)
  case Nil
  then show ?case by simp
next
  case (Cons c rest)
  obtain q gs where cq: "c = Node q gs" by (cases c)
  obtain child' below nid1 rest' pushed2 where
    c: "processNode nid (Node (disseminate p q) gs) = (child', below, nid1)" and
    r: "processNode_each p nid1 rest = (rest', pushed2, nid')" and
    cs': "cs' = child' # rest'"
    using processNode_each_Cons [OF Cons.prems [unfolded cq]] by blast
  have "getp (props child') k = getp (disseminate p q) k"
    using processNode_fields(5) [OF c assms(2,3)] .
  then have g: "getp (props child') k = getp q k"
    using assms(4) by (simp add: disseminate_def)
  have i: "isCTE (props child') = isCTE q"
    using processNode_isCTE [OF c] by simp
  show ?case
    using Cons.IH [OF r] g i by (simp add: cs' cq)
qed

lemma sumBy_map: "sumBy cs f = fold (\<lambda>x acc. js_add acc x) (map f cs) (Num 0)"
  by (simp add: sumBy_def fold_map comp_def)

lemma map_filter_cong:
  "map (\<lambda>c. (P c, f c)) xs = map (\<lambda>c. (P c, f c)) ys \<Longrightarrow>
   map f (filter P xs) = map f (filter P ys)"
proof (induction xs arbitrary: ys)
  case Nil
  then show ?case by simp
next
  case (Cons x xs)
  then obtain y ys' where ys: "ys = y # ys'" by (cases ys) auto
  with Cons.prems have "P x = P y" "f x = f y"
    "map (\<lambda>c. (P c, f c)) xs = map (\<lambda>c. (P c, f c)) ys'" by simp_all
  then show ?case using Cons.IH [of ys'] by (simp add: ys)
qed

lemma sumBy_kept:
  assumes "map (\<lambda>c. (isCTE (props c), f c)) cs' = map (\<lambda>c. (isCTE (props c), f c)) cs"
  shows "sumBy (filter (\<lambda>c. \<not> isCTE (props c)) cs') f = sumBy (filter (\<lambda>c. \<not> isCTE (props c)) cs) f"
proof -
  have "map (\<lambda>c. (\<not> isCTE (props c), f c)) cs' = map (\<lambda>c. (\<not> isCTE (props c), f c)) cs"
    using arg_cong [OF assms, of "map (\<lambda>e. (\<not> fst e, snd e))"] by (simp add: comp_def)
  then have "map f (filter (\<lambda>c. \<not> isCTE (props c)) cs') = map f (filter (\<lambda>c. \<not> isCTE (props c)) cs)"
    by (rule map_filter_cong)
  then show ?thesis
    by (simp add: sumBy_map)
qed

lemma properties_not_written:
  "k \<in> set properties \<Longrightarrow> k \<notin> enrich_keys \<and> k \<noteq> PLANNER_ESTIMATE_FACTOR \<and> k \<noteq> WORKERS_PLANNED_BY_GATHER"
  by (auto simp: properties_def enrich_keys_def duration_keys_def revised_keys_def exclusive_keys_def)

lemma processNode_exclusive:
  assumes "k \<in> set properties"
  shows "getp (props (fst (processNode nid (Node p cs)))) (exclusive k)
           = Some (js_sub (to_num (getp p k))
                     (sumBy (filter (\<lambda>c. \<not> isCTE (props c)) cs) (counter_of k)))"
proof -
  obtain n' pushed nid' where pn: "processNode nid (Node p cs) = (n', pushed, nid')"
    by (cases "processNode nid (Node p cs)") auto
  let ?p1 = "calculatePlannerEstimate (p\<lparr>nodeId := Some nid\<rparr>)"
  obtain cs' where each: "processNode_each ?p1 (Suc nid) cs = (cs', pushed, nid')"
    and n': "n' = calculateExclusives (calculateActuals
       (Node ?p1 (filter (\<lambda>child. \<not> isCTE (props child)) cs')))"
    using processNode_root [OF pn] by blast
  let ?kept = "filter (\<lambda>child. \<not> isCTE (props child)) cs'"
  note nw = properties_not_written [OF assms]
  have "writes (duration_keys \<union> {EXCLUSIVE_COST} \<union> revised_keys) ?p1
          (props (calculateActuals (Node ?p1 ?kept)))"
    using writes_calculateActuals [of "Node ?p1 ?kept"] by simp
  then have "getp (props (calculateActuals (Node ?p1 ?kept))) k = getp ?p1 k"
    using nw by (simp add: writes_def enrich_keys_def)
  then have base: "getp (props (calculateActuals (Node ?p1 ?kept))) k = getp p k"
    using writes_calculatePlannerEstimate [of "p\<lparr>nodeId := Some nid\<rparr>"] nw by simp
  have pres: "map (\<lambda>c. (isCTE (props c), counter_of k c)) cs'
           = map (\<lambda>c. (isCTE (props c), counter_of k c)) cs"
    using arg_cong [OF processNode_each_preserves [OF each, of k],
        of "map (\<lambda>e. (fst e, to_num (js_or (snd e) (Some (Num 0)))))"] nw
    by (simp add: counter_of_def comp_def)
  have "getp (props n') (exclusive k)
      = Some (js_sub (to_num (getp (props (calculateActuals (Node ?p1 ?kept))) k))
                (sumBy ?kept (counter_of k)))"
    unfolding n' calculateExclusives_def
    using fold_exclusive_of [OF assms] by simp
  then show ?thesis
    using base sumBy_kept [OF pres] by (simp add: pn)
qed


subsection \<open>Reading the result of createPlan\<close>

lemma createPlan_eq:
  assumes "processNode 1 t = (n', pushed, nid')"
  shows "content_Plan (createPlan t) = n'" "ctes (createPlan t) = pushed"
  using assms by (simp_all add: createPlan_def)

lemma tag_of_enumerate:
  "map tag_of (enumerate n (map node_key xs))
     = map (\<lambda>e. (Some (fst e), node_type (props (snd e)))) (enumerate n xs)"
  by (induction xs arbitrary: n) (simp_all add: tag_of_def node_key_def)

lemma tag_of_filter_enumerate:
  "map tag_of (filter (\<lambda>e. snd (snd e)) (enumerate n (map node_key xs)))
     = map (\<lambda>e. (Some (fst e), node_type (props (snd e))))
         (filter (\<lambda>e. isCTE (props (snd e))) (enumerate n xs))"
  by (induction xs arbitrary: n) (simp_all add: tag_of_def node_key_def)

lemma ids_of_enumerate:
  "map fst (map (\<lambda>e. (Some (fst e), f (snd e))) (enumerate n xs)) = map Some [n ..< n + length xs]"
proof -
  have "map fst (map (\<lambda>e. (Some (fst e), f (snd e))) (enumerate n xs))
          = map Some (map fst (enumerate n xs))"
    by (simp only: map_map comp_def fst_conv)
  then show ?thesis by (simp only: map_fst_enumerate)
qed

lemma tl_flat: "tl (map node_key (flat t)) = map node_key (descendants t)"
  by (subst flat_Plans) (simp add: descendants_def)

lemma cte_by_spec_isCTE: "cte_by_spec n \<Longrightarrow> isCTE (props n)"
  by (cases "subplan_name (props n)")
     (auto simp: cte_by_spec_def isCTE_def startsWith_def dest: arg_cong [where f = "take 3"])

lemma processNode_estimate:
  "planner_estimate_direction (props (fst (processNode nid (Node p cs))))
     = planner_estimate_direction (calculatePlannerEstimate p)"
  "getp (props (fst (processNode nid (Node p cs)))) PLANNER_ESTIMATE_FACTOR
     = getp (calculatePlannerEstimate p) PLANNER_ESTIMATE_FACTOR"
proof -
  obtain n' pushed nid' where pn: "processNode nid (Node p cs) = (n', pushed, nid')"
    by (cases "processNode nid (Node p cs)") auto
  let ?p1 = "calculatePlannerEstimate (p\<lparr>nodeId := Some nid\<rparr>)"
  obtain cs' where n': "n' = calculateExclusives (calculateActuals
       (Node ?p1 (filter (\<lambda>child. \<not> isCTE (props child)) cs')))"
    using processNode_root [OF pn] by blast
  have w: "writes enrich_keys ?p1 (props n')"
    unfolding n' using writes_post [of "Node ?p1 (filter (\<lambda>child. \<not> isCTE (props child)) cs')"]
    by simp
  have k: "PLANNER_ESTIMATE_FACTOR \<notin> enrich_keys"
    by (auto simp: enrich_keys_def duration_keys_def revised_keys_def exclusive_keys_def
        properties_def)
  have d: "planner_estimate_direction ?p1 = planner_estimate_direction (calculatePlannerEstimate p)"
    by (simp add: calculatePlannerEstimate_def Let_def)
  have f: "getp ?p1 PLANNER_ESTIMATE_FACTOR = getp (calculatePlannerEstimate p) PLANNER_ESTIMATE_FACTOR"
    by (simp add: calculatePlannerEstimate_def Let_def)
  show "planner_estimate_direction (props (fst (processNode nid (Node p cs))))
     = planner_estimate_direction (calculatePlannerEstimate p)"
    using w d by (simp add: pn writes_def)
  show "getp (props (fst (processNode nid (Node p cs)))) PLANNER_ESTIMATE_FACTOR
     = getp (calculatePlannerEstimate p) PLANNER_ESTIMATE_FACTOR"
    using w k f by (simp add: pn writes_def)
qed

subsection \<open>Every enriched node and the node it comes from\<close>

lemma writes_disseminate: "writes {WORKERS_PLANNED_BY_GATHER} q (disseminate p q)"
  by (simp add: disseminate_def writes_def)

lemma process_sources:
  assumes loc: "\<And>nid p0 p cs. writes {WORKERS_PLANNED_BY_GATHER} p0 p \<Longrightarrow>
                  Q (Node p0 cs) (fst (processNode nid (Node p cs)))"
  shows "processNode nid n = (n', pushed, nid') \<Longrightarrow>
     writes {WORKERS_PLANNED_BY_GATHER} (props n0) (props n) \<Longrightarrow> Plans n0 = Plans n \<Longrightarrow>
     (\<forall>m \<in> set (flat n' @ concat (map flat pushed)).
        \<exists>i < length (flat n0). nodeId (props m) = Some (nid + i) \<and> Q (flat n0 ! i) m)"
  and "processNode_each pp nid cs = (cs', pushed, nid') \<Longrightarrow>
     (\<forall>m \<in> set (concat (map flat cs') @ concat (map flat pushed)).
        \<exists>i < length (concat (map flat cs)).
          nodeId (props m) = Some (nid + i) \<and> Q (concat (map flat cs) ! i) m)"
proof (induction nid n and pp nid cs arbitrary: n' pushed nid' n0 and cs' pushed nid'
       rule: processNode_processNode_each.induct)
  case (1 nid p cs)
  let ?p1 = "calculatePlannerEstimate (p\<lparr>nodeId := Some nid\<rparr>)"
  obtain cs' where each: "processNode_each ?p1 (Suc nid) cs = (cs', pushed, nid')"
    and n': "n' = calculateExclusives (calculateActuals
                  (Node ?p1 (filter (\<lambda>child. \<not> isCTE (props child)) cs')))"
    using processNode_root [OF "1.prems"(1)] by blast
  note ih = "1.IH" [OF refl each]
  obtain p0 where n0: "n0 = Node p0 cs" using "1.prems"(3) by (cases n0) simp
  have w: "writes {WORKERS_PLANNED_BY_GATHER} p0 p" using "1.prems"(2) by (simp add: n0)
  have fl: "flat n' = n' # concat (map flat (filter (\<lambda>child. \<not> isCTE (props child)) cs'))"
    by (subst flat_Plans) (simp add: n')
  have f0: "flat n0 = Node p0 cs # concat (map flat cs)" by (simp add: n0)
  have root: "nodeId (props n') = Some (nid + 0) \<and> Q (flat n0 ! 0) n'"
    using processNode_fields(2) [OF "1.prems"(1)] loc [OF w, of cs nid] "1.prems"(1)
    by (simp add: f0)
  have sub: "set (concat (map flat (filter (\<lambda>child. \<not> isCTE (props child)) cs')))
      \<subseteq> set (concat (map flat cs'))" by auto
  show ?case
  proof
    fix m assume "m \<in> set (flat n' @ concat (map flat pushed))"
    then consider "m = n'" | "m \<in> set (concat (map flat cs') @ concat (map flat pushed))"
      unfolding fl using sub by auto
    then show "\<exists>i < length (flat n0). nodeId (props m) = Some (nid + i) \<and> Q (flat n0 ! i) m"
    proof cases
      case 1
      then show ?thesis using root by (intro exI [of _ 0]) (simp add: f0)
    next
      case 2
      then obtain i where i: "i < length (concat (map flat cs))"
        "nodeId (props m) = Some (Suc nid + i)" "Q (concat (map flat cs) ! i) m"
        using ih by blast
      then show ?thesis by (intro exI [of _ "Suc i"]) (simp add: f0)
    qed
  qed
next
  case (2 pp nid)
  then show ?case by simp
next
  case (3 pp nid q gs rest)
  obtain child' below nid1 rest' pushed2 where
    c: "processNode nid (Node (disseminate pp q) gs) = (child', below, nid1)" and
    r: "processNode_each pp nid1 rest = (rest', pushed2, nid')" and
    cs': "cs' = child' # rest'" and
    pushed: "pushed = (if isCTE q then [child'] else []) @ below @ pushed2"
    using processNode_each_Cons [OF "3.prems"] by blast
  have ih1: "\<forall>m \<in> set (flat child' @ concat (map flat below)).
        \<exists>i < length (flat (Node q gs)). nodeId (props m) = Some (nid + i) \<and> Q (flat (Node q gs) ! i) m"
    by (rule "3.IH"(1) [OF refl c]) (simp_all add: writes_disseminate)
  have ih2: "\<forall>m \<in> set (concat (map flat rest') @ concat (map flat pushed2)).
        \<exists>i < length (concat (map flat rest)).
          nodeId (props m) = Some (nid1 + i) \<and> Q (concat (map flat rest) ! i) m"
    by (rule "3.IH"(2) [OF refl c [symmetric] refl refl r])
  have nid1: "nid1 = nid + length (flat (Node q gs))"
    using process_ids(1) [OF c] by simp
  have mem: "set (concat (map flat cs') @ concat (map flat pushed))
     \<subseteq> set (flat child' @ concat (map flat below))
       \<union> set (concat (map flat rest') @ concat (map flat pushed2))"
    by (auto simp: cs' pushed)
  have cat: "concat (map flat (Node q gs # rest)) = flat (Node q gs) @ concat (map flat rest)"
    by simp
  show ?case
  proof
    fix m assume "m \<in> set (concat (map flat cs') @ concat (map flat pushed))"
    then consider "m \<in> set (flat child' @ concat (map flat below))"
      | "m \<in> set (concat (map flat rest') @ concat (map flat pushed2))"
      using mem by blast
    then show "\<exists>i < length (concat (map flat (Node q gs # rest))).
          nodeId (props m) = Some (nid + i) \<and> Q (concat (map flat (Node q gs # rest)) ! i) m"
    proof cases
      case 1
      then obtain i where "i < length (flat (Node q gs))" "nodeId (props m) = Some (nid + i)"
        "Q (flat (Node q gs) ! i) m" using ih1 by blast
      then show ?thesis
        unfolding cat by (intro exI [of _ i]) (simp add: nth_append del: flat.simps)
    next
      case 2
      then obtain i where "i < length (concat (map flat rest))" "nodeId (props m) = Some (nid1 + i)"
        "Q (concat (map flat rest) ! i) m" using ih2 by blast
      then show ?thesis
        unfolding cat by (intro exI [of _ "length (flat (Node q gs)) + i"])
          (simp add: nth_append nid1 del: flat.simps)
    qed
  qed
qed

lemma createPlan_sources:
  assumes loc: "\<And>nid p0 p cs. writes {WORKERS_PLANNED_BY_GATHER} p0 p \<Longrightarrow>
                  Q (Node p0 cs) (fst (processNode nid (Node p cs)))"
  shows "\<forall>m \<in> set (flat (content_Plan (createPlan t)) @ concat (map flat (ctes (createPlan t)))).
           Q (origin t m) m"
proof -
  obtain n' pushed nid' where pn: "processNode 1 t = (n', pushed, nid')"
    by (cases "processNode 1 t") auto
  have "\<forall>m \<in> set (flat n' @ concat (map flat pushed)).
        \<exists>i < length (flat t). nodeId (props m) = Some (1 + i) \<and> Q (flat t ! i) m"
    using process_sources(1) [where Q = Q and ?n0.0 = t, OF loc pn] by (simp add: writes_refl)
  then have a: "\<forall>m \<in> set (flat n' @ concat (map flat pushed)). Q (origin t m) m"
  proof (intro ballI)
    fix m assume "\<forall>m \<in> set (flat n' @ concat (map flat pushed)).
        \<exists>i < length (flat t). nodeId (props m) = Some (1 + i) \<and> Q (flat t ! i) m"
      and "m \<in> set (flat n' @ concat (map flat pushed))"
    then obtain i where "nodeId (props m) = Some (1 + i)" "Q (flat t ! i) m" by blast
    then show "Q (origin t m) m" by (simp add: origin_def)
  qed
  show ?thesis
    unfolding createPlan_eq [OF pn] using a .
qed

subsection \<open>What one call does to its node\<close>

lemma js_lt_asym: "js_lt a b \<Longrightarrow> \<not> js_lt b a"
  by (cases a; cases b) simp_all

lemma calculatePlannerEstimate_any:
  assumes "getp p ACTUAL_ROWS = Some x"
  shows "planner_estimate_direction (calculatePlannerEstimate p)
           = Some (if js_gt x (to_num (getp p PLAN_ROWS)) then under
                   else if js_lt x (to_num (getp p PLAN_ROWS)) then over else none)"
    and "getp (calculatePlannerEstimate p) PLANNER_ESTIMATE_FACTOR
           = Some (if js_lt x (to_num (getp p PLAN_ROWS)) then js_div (to_num (getp p PLAN_ROWS)) x
                   else js_div x (to_num (getp p PLAN_ROWS)))"
  using assms js_lt_asym [of x "to_num (getp p PLAN_ROWS)"]
  by (auto simp: calculatePlannerEstimate_def Let_def js_gt_def)

lemma estimate_rows:
  assumes "0 \<le> a" "0 \<le> b"
  shows "(if js_gt (Num a) (Num b) then under else if js_lt (Num a) (Num b) then over else none)
           = (if a = b then none else if b < a then under else over)"
    and "(if js_lt (Num a) (Num b) then js_div (Num b) (Num a) else js_div (Num a) (Num b))
           = (if a = 0 \<and> b = 0 then NaN else if a = 0 \<or> b = 0 then PInf
              else Num (max a b / min a b))"
    and "\<not> (a = 0 \<and> b = 0) \<Longrightarrow>
           js_ge (if js_lt (Num a) (Num b) then js_div (Num b) (Num a) else js_div (Num a) (Num b))
             (Num 1)"
  using assms by (auto simp: js_gt_def js_ge_def signed_inf_def max_def min_def)

lemma estimate_local:
  assumes w: "writes {WORKERS_PLANNED_BY_GATHER} p0 p" and x: "getp p0 ACTUAL_ROWS = Some x"
  shows "planner_estimate_direction (props (fst (processNode nid (Node p cs))))
           = Some (if js_gt x (to_num (getp p0 PLAN_ROWS)) then under
                   else if js_lt x (to_num (getp p0 PLAN_ROWS)) then over else none)"
    and "getp (props (fst (processNode nid (Node p cs)))) PLANNER_ESTIMATE_FACTOR
           = Some (if js_lt x (to_num (getp p0 PLAN_ROWS)) then js_div (to_num (getp p0 PLAN_ROWS)) x
                   else js_div x (to_num (getp p0 PLAN_ROWS)))"
proof -
  have a: "getp p ACTUAL_ROWS = Some x" and b: "getp p PLAN_ROWS = getp p0 PLAN_ROWS"
    using w x by (simp_all add: writes_def)
  show "planner_estimate_direction (props (fst (processNode nid (Node p cs))))
           = Some (if js_gt x (to_num (getp p0 PLAN_ROWS)) then under
                   else if js_lt x (to_num (getp p0 PLAN_ROWS)) then over else none)"
    using calculatePlannerEstimate_any(1) [OF a] by (simp only: processNode_estimate b)
  show "getp (props (fst (processNode nid (Node p cs)))) PLANNER_ESTIMATE_FACTOR
           = Some (if js_lt x (to_num (getp p0 PLAN_ROWS)) then js_div (to_num (getp p0 PLAN_ROWS)) x
                   else js_div x (to_num (getp p0 PLAN_ROWS)))"
    using calculatePlannerEstimate_any(2) [OF a] by (simp only: processNode_estimate b)
qed

lemma createPlan_estimate:
  assumes "m \<in> set (flat (content_Plan (createPlan t)) @ concat (map flat (ctes (createPlan t))))"
    and "getp (props (origin t m)) ACTUAL_ROWS = Some x"
  shows "planner_estimate_direction (props m)
           = Some (if js_gt x (to_num (getp (props (origin t m)) PLAN_ROWS)) then under
                   else if js_lt x (to_num (getp (props (origin t m)) PLAN_ROWS)) then over else none)"
    and "getp (props m) PLANNER_ESTIMATE_FACTOR
           = Some (if js_lt x (to_num (getp (props (origin t m)) PLAN_ROWS))
                   then js_div (to_num (getp (props (origin t m)) PLAN_ROWS)) x
                   else js_div x (to_num (getp (props (origin t m)) PLAN_ROWS)))"
proof -
  let ?Q = "\<lambda>n0 m. \<forall>x. getp (props n0) ACTUAL_ROWS = Some x \<longrightarrow>
      planner_estimate_direction (props m)
           = Some (if js_gt x (to_num (getp (props n0) PLAN_ROWS)) then under
                   else if js_lt x (to_num (getp (props n0) PLAN_ROWS)) then over else none)
      \<and> getp (props m) PLANNER_ESTIMATE_FACTOR
           = Some (if js_lt x (to_num (getp (props n0) PLAN_ROWS))
                   then js_div (to_num (getp (props n0) PLAN_ROWS)) x
                   else js_div x (to_num (getp (props n0) PLAN_ROWS)))"
  have "?Q (Node p0 cs) (fst (processNode nid (Node p cs)))"
    if "writes {WORKERS_PLANNED_BY_GATHER} p0 p" for nid p0 p cs
    using estimate_local [OF that] by simp
  then have "?Q (origin t m) m"
    using createPlan_sources [where Q = ?Q and t = t] assms(1) by blast
  then show "planner_estimate_direction (props m)
           = Some (if js_gt x (to_num (getp (props (origin t m)) PLAN_ROWS)) then under
                   else if js_lt x (to_num (getp (props (origin t m)) PLAN_ROWS)) then over else none)"
    and "getp (props m) PLANNER_ESTIMATE_FACTOR
           = Some (if js_lt x (to_num (getp (props (origin t m)) PLAN_ROWS))
                   then js_div (to_num (getp (props (origin t m)) PLAN_ROWS)) x
                   else js_div x (to_num (getp (props (origin t m)) PLAN_ROWS)))"
    using assms(2) by simp_all
qed

lemma duration_local:
  assumes w: "writes {WORKERS_PLANNED_BY_GATHER} p0 p" and t: "getp p0 ACTUAL_TOTAL_TIME \<noteq> None"
  shows "getp (props (fst (processNode nid (Node p cs)))) ACTUAL_TOTAL_TIME
           = Some (js_div (js_mul (to_num (getp p0 ACTUAL_TOTAL_TIME)) (to_num (getp p0 ACTUAL_LOOPS)))
                 (js_add (to_num (js_or (getp (props (fst (processNode nid (Node p cs))))
                                           WORKERS_PLANNED_BY_GATHER) (Some (Num 0)))) (Num 1)))
       \<and> getp (props (fst (processNode nid (Node p cs)))) ACTUAL_STARTUP_TIME
           = Some (js_div (js_mul (to_num (getp p0 ACTUAL_STARTUP_TIME)) (to_num (getp p0 ACTUAL_LOOPS)))
                 (js_add (to_num (js_or (getp (props (fst (processNode nid (Node p cs))))
                                           WORKERS_PLANNED_BY_GATHER) (Some (Num 0)))) (Num 1)))
       \<and> getp (props (fst (processNode nid (Node p cs)))) EXCLUSIVE_DURATION
           = Some (clamp0 (js_sub
                 (to_num (getp (props (fst (processNode nid (Node p cs)))) ACTUAL_TOTAL_TIME))
                 (fold (\<lambda>child acc. js_add acc (duration_of child))
                    (counted (fst (processNode nid (Node p cs)))) (Num 0))))"
proof -
  obtain n' pushed nid' where pn: "processNode nid (Node p cs) = (n', pushed, nid')"
    by (cases "processNode nid (Node p cs)") auto
  have g: "getp (props n') WORKERS_PLANNED_BY_GATHER = getp p WORKERS_PLANNED_BY_GATHER"
    using processNode_fields(5) [OF pn enrich_keys_workers(2)] by simp
  have e: "getp p ACTUAL_TOTAL_TIME = getp p0 ACTUAL_TOTAL_TIME"
    "getp p ACTUAL_STARTUP_TIME = getp p0 ACTUAL_STARTUP_TIME"
    "getp p ACTUAL_LOOPS = getp p0 ACTUAL_LOOPS"
    using w by (simp_all add: writes_def)
  have t': "getp p ACTUAL_TOTAL_TIME \<noteq> None" using t e by simp
  show ?thesis
    using processNode_duration [OF t', of nid cs] by (simp add: scaled_def pn g e)
qed

lemma exclusive_local:
  assumes w: "writes {WORKERS_PLANNED_BY_GATHER} p0 p" and k: "k \<in> set properties"
  shows "getp (props (fst (processNode nid (Node p cs)))) (exclusive k)
           = Some (js_sub (to_num (getp p0 k))
                     (sumBy (filter (\<lambda>c. \<not> isCTE (props c)) cs) (counter_of k)))"
proof -
  have "getp p k = getp p0 k"
    using w properties_not_written [OF k] by (simp add: writes_def)
  then show ?thesis
    using processNode_exclusive [OF k, of nid p cs] by simp
qed

section \<open>The claims about the enrichment pass\<close>

text \<open>
  The enriched plan is the main tree under \<open>content.Plan\<close> together with the
  subtrees relocated to \<open>plan.ctes\<close>. An enriched node \<open>m\<close> carries as its
  identifier the place of its node in the pre-order of the parsed tree \<open>t\<close>;
  \<open>origin t m\<close> is that node as it was parsed.
\<close>

text \<open>
  C1, as the code has it: every node of the enriched plan that was parsed with
  \<open>actual_rows\<close> gets a direction and a factor. The direction is \<open>under\<close>
  when \<open>actual_rows > plan_rows\<close>, \<open>over\<close> when \<open>actual_rows < plan_rows\<close>
  and \<open>none\<close> otherwise: when the two are equal, and when \<open>plan_rows\<close> is
  absent, where no comparison holds. The factor is \<open>plan_rows / actual_rows\<close>
  when \<open>actual_rows < plan_rows\<close> and \<open>actual_rows / plan_rows\<close> otherwise.
  For row counts that are not negative: without \<open>plan_rows\<close> the direction is
  \<open>none\<close> and the factor NaN; with \<open>plan_rows\<close> the direction is \<open>none\<close>
  exactly when the two are equal, also when one of them is 0, and the factor is
  the larger count divided by the smaller one when both are positive, Infinity
  when exactly one is 0 and NaN when both are 0; unless both are 0 it is at
  least 1.
\<close>

theorem planner_estimate:
  assumes "m \<in> set (flat (content_Plan (createPlan t)) @ concat (map flat (ctes (createPlan t))))"
    and "getp (props (origin t m)) ACTUAL_ROWS = Some x"
  shows "planner_estimate_direction (props m)
           = Some (if js_gt x (to_num (getp (props (origin t m)) PLAN_ROWS)) then under
                   else if js_lt x (to_num (getp (props (origin t m)) PLAN_ROWS)) then over else none)
       \<and> getp (props m) PLANNER_ESTIMATE_FACTOR
           = Some (if js_lt x (to_num (getp (props (origin t m)) PLAN_ROWS))
                   then js_div (to_num (getp (props (origin t m)) PLAN_ROWS)) x
                   else js_div x (to_num (getp (props (origin t m)) PLAN_ROWS)))
       \<and> (\<forall>a. x = Num a \<and> 0 \<le> a \<longrightarrow>
            (getp (props (origin t m)) PLAN_ROWS = None \<longrightarrow>
               planner_estimate_direction (props m) = Some none
               \<and> getp (props m) PLANNER_ESTIMATE_FACTOR = Some NaN)
            \<and> (\<forall>b. getp (props (origin t m)) PLAN_ROWS = Some (Num b) \<and> 0 \<le> b \<longrightarrow>
                 planner_estimate_direction (props m)
                   = Some (if a = b then none else if b < a then under else over)
                 \<and> getp (props m) PLANNER_ESTIMATE_FACTOR
                   = Some (if a = 0 \<and> b = 0 then NaN else if a = 0 \<or> b = 0 then PInf
                           else Num (max a b / min a b))
                 \<and> (\<not> (a = 0 \<and> b = 0) \<longrightarrow>
                      js_ge (to_num (getp (props m) PLANNER_ESTIMATE_FACTOR)) (Num 1))))"
proof -
  note e = createPlan_estimate [OF assms]
  have absent: "planner_estimate_direction (props m) = Some none
               \<and> getp (props m) PLANNER_ESTIMATE_FACTOR = Some NaN"
    if "x = Num a" "getp (props (origin t m)) PLAN_ROWS = None" for a
    using e that by (simp add: js_gt_def)
  have rows: "planner_estimate_direction (props m)
                   = Some (if a = b then none else if b < a then under else over)
                 \<and> getp (props m) PLANNER_ESTIMATE_FACTOR
                   = Some (if a = 0 \<and> b = 0 then NaN else if a = 0 \<or> b = 0 then PInf
                           else Num (max a b / min a b))
                 \<and> (\<not> (a = 0 \<and> b = 0) \<longrightarrow>
                      js_ge (to_num (getp (props m) PLANNER_ESTIMATE_FACTOR)) (Num 1))"
    if "x = Num a" "0 \<le> a" "getp (props (origin t m)) PLAN_ROWS = Some (Num b)" "0 \<le> b" for a b
  proof -
    note r = estimate_rows [OF that(2,4)]
    have d: "planner_estimate_direction (props m)
        = Some (if js_gt (Num a) (Num b) then under else if js_lt (Num a) (Num b) then over else none)"
      using e(1) by (simp only: that(1,3) to_num.simps)
    have f: "getp (props m) PLANNER_ESTIMATE_FACTOR
        = Some (if js_lt (Num a) (Num b) then js_div (Num b) (Num a) else js_div (Num a) (Num b))"
      using e(2) by (simp only: that(1,3) to_num.simps)
    have g: "\<not> (a = 0 \<and> b = 0) \<longrightarrow>
        js_ge (to_num (getp (props m) PLANNER_ESTIMATE_FACTOR)) (Num 1)"
    proof
      assume n: "\<not> (a = 0 \<and> b = 0)"
      show "js_ge (to_num (getp (props m) PLANNER_ESTIMATE_FACTOR)) (Num 1)"
        using r(3) [OF n] by (simp only: f to_num.simps)
    qed
    show ?thesis
      using g by (simp only: d f r(1,2))
  qed
  show ?thesis using e absent rows by blast
qed

text \<open>The theorem at a scan that returned 5 rows where 2 were planned.\<close>

theorem planner_estimate_witness:
  "content_Plan (createPlan scan_under)
     \<in> set (flat (content_Plan (createPlan scan_under))
             @ concat (map flat (ctes (createPlan scan_under))))
   \<and> getp (props (origin scan_under (content_Plan (createPlan scan_under)))) ACTUAL_ROWS
       = Some (Num 5)
   \<and> getp (props (origin scan_under (content_Plan (createPlan scan_under)))) PLAN_ROWS
       = Some (Num 2)
   \<and> planner_estimate_direction (props (content_Plan (createPlan scan_under))) = Some under
   \<and> getp (props (content_Plan (createPlan scan_under))) PLANNER_ESTIMATE_FACTOR
       = Some (Num (5 / 2))
   \<and> js_ge (to_num (getp (props (content_Plan (createPlan scan_under))) PLANNER_ESTIMATE_FACTOR))
        (Num 1)"
proof -
  let ?m = "content_Plan (createPlan scan_under)"
  have m: "?m \<in> set (flat ?m @ concat (map flat (ctes (createPlan scan_under))))"
    by (subst flat_Plans) simp
  have a: "getp (props (origin scan_under ?m)) ACTUAL_ROWS = Some (Num 5)" by code_simp
  have b: "getp (props (origin scan_under ?m)) PLAN_ROWS = Some (Num 2)" by code_simp
  show ?thesis
    using planner_estimate [OF m a] m a b by (simp add: js_gt_def js_ge_def)
qed

text \<open>
  Where no row was planned and 5 came, the division is by zero: the direction is
  \<open>under\<close>, not \<open>none\<close>, and the factor is set, to Infinity. Where 5 rows
  came and the plan has no estimate, the direction is \<open>none\<close> and the factor
  is set, to NaN, which is not at least 1.
\<close>

theorem planner_estimate_zero_counterexample:
  "getp (props scan_unplanned) ACTUAL_ROWS = Some (Num 5)
   \<and> getp (props scan_unplanned) PLAN_ROWS = Some (Num 0)
   \<and> planner_estimate_direction (props (content_Plan (createPlan scan_unplanned))) = Some under
   \<and> getp (props (content_Plan (createPlan scan_unplanned))) PLANNER_ESTIMATE_FACTOR = Some PInf
   \<and> \<not> (planner_estimate_direction (props (content_Plan (createPlan scan_unplanned))) = Some none
        \<and> getp (props (content_Plan (createPlan scan_unplanned))) PLANNER_ESTIMATE_FACTOR = None)
   \<and> getp (props scan_costs_off) ACTUAL_ROWS = Some (Num 5)
   \<and> getp (props scan_costs_off) PLAN_ROWS = None
   \<and> planner_estimate_direction (props (content_Plan (createPlan scan_costs_off))) = Some none
   \<and> getp (props (content_Plan (createPlan scan_costs_off))) PLANNER_ESTIMATE_FACTOR = Some NaN
   \<and> \<not> js_ge (to_num (getp (props (content_Plan (createPlan scan_costs_off)))
                        PLANNER_ESTIMATE_FACTOR)) (Num 1)"
  by code_simp

text \<open>
  C2, as the code has it: for every node of the enriched plan that was parsed
  with \<open>actual_total_time\<close>, the total and the startup time are those parsed,
  multiplied by \<open>actual_loops\<close> and divided by the workers handed down to the
  node (0 when there are none) plus one; the exclusive duration is the scaled
  total time minus the exclusive durations found by \<open>childrenDuration\<close>,
  clamped at 0. That sum runs over the children that are not InitPlans and over
  all their descendants down to the next InitPlan, not over the children alone.
\<close>

theorem exclusive_duration:
  assumes "m \<in> set (flat (content_Plan (createPlan t)) @ concat (map flat (ctes (createPlan t))))"
    and "getp (props (origin t m)) ACTUAL_TOTAL_TIME \<noteq> None"
  shows "getp (props m) ACTUAL_TOTAL_TIME
           = Some (js_div (js_mul (to_num (getp (props (origin t m)) ACTUAL_TOTAL_TIME))
                                  (to_num (getp (props (origin t m)) ACTUAL_LOOPS)))
                 (js_add (to_num (js_or (getp (props m) WORKERS_PLANNED_BY_GATHER) (Some (Num 0))))
                         (Num 1)))
       \<and> getp (props m) ACTUAL_STARTUP_TIME
           = Some (js_div (js_mul (to_num (getp (props (origin t m)) ACTUAL_STARTUP_TIME))
                                  (to_num (getp (props (origin t m)) ACTUAL_LOOPS)))
                 (js_add (to_num (js_or (getp (props m) WORKERS_PLANNED_BY_GATHER) (Some (Num 0))))
                         (Num 1)))
       \<and> getp (props m) EXCLUSIVE_DURATION
           = Some (clamp0 (js_sub (to_num (getp (props m) ACTUAL_TOTAL_TIME))
                 (fold (\<lambda>child acc. js_add acc (duration_of child)) (counted m) (Num 0))))"
proof -
  let ?Q = "\<lambda>n0 m. getp (props n0) ACTUAL_TOTAL_TIME \<noteq> None \<longrightarrow>
       getp (props m) ACTUAL_TOTAL_TIME
           = Some (js_div (js_mul (to_num (getp (props n0) ACTUAL_TOTAL_TIME))
                                  (to_num (getp (props n0) ACTUAL_LOOPS)))
                 (js_add (to_num (js_or (getp (props m) WORKERS_PLANNED_BY_GATHER) (Some (Num 0))))
                         (Num 1)))
       \<and> getp (props m) ACTUAL_STARTUP_TIME
           = Some (js_div (js_mul (to_num (getp (props n0) ACTUAL_STARTUP_TIME))
                                  (to_num (getp (props n0) ACTUAL_LOOPS)))
                 (js_add (to_num (js_or (getp (props m) WORKERS_PLANNED_BY_GATHER) (Some (Num 0))))
                         (Num 1)))
       \<and> getp (props m) EXCLUSIVE_DURATION
           = Some (clamp0 (js_sub (to_num (getp (props m) ACTUAL_TOTAL_TIME))
                 (fold (\<lambda>child acc. js_add acc (duration_of child)) (counted m) (Num 0))))"
  have "?Q (Node p0 cs) (fst (processNode nid (Node p cs)))"
    if "writes {WORKERS_PLANNED_BY_GATHER} p0 p" for nid p0 p cs
    using duration_local [OF that, of nid cs] by simp
  then have "?Q (origin t m) m"
    using createPlan_sources [where Q = ?Q and t = t] assms(1) by blast
  then show ?thesis using assms(2) by blast
qed

text \<open>
  The theorem at the join of \<open>plan_nested\<close>: its total time stays 10 and its
  exclusive duration is 10 less the 3 of the sort and the 2 of the scan.
\<close>

theorem exclusive_duration_witness:
  "content_Plan (createPlan plan_nested)
     \<in> set (flat (content_Plan (createPlan plan_nested))
             @ concat (map flat (ctes (createPlan plan_nested))))
   \<and> getp (props (origin plan_nested (content_Plan (createPlan plan_nested)))) ACTUAL_TOTAL_TIME
       = Some (Num 10)
   \<and> getp (props (content_Plan (createPlan plan_nested))) ACTUAL_TOTAL_TIME = Some (Num 10)
   \<and> map (\<lambda>c. (node_type (props c), duration_of c)) (counted (content_Plan (createPlan plan_nested)))
       = [(''Sort'', Num 3), (''Seq Scan'', Num 2)]
   \<and> getp (props (content_Plan (createPlan plan_nested))) EXCLUSIVE_DURATION = Some (Num 5)"
proof -
  let ?m = "content_Plan (createPlan plan_nested)"
  have m: "?m \<in> set (flat ?m @ concat (map flat (ctes (createPlan plan_nested))))"
    by (subst flat_Plans) simp
  have a: "getp (props (origin plan_nested ?m)) ACTUAL_TOTAL_TIME = Some (Num 10)" by code_simp
  then have a': "getp (props (origin plan_nested ?m)) ACTUAL_TOTAL_TIME \<noteq> None" by simp
  have c: "map (\<lambda>c. (node_type (props c), duration_of c)) (counted ?m)
       = [(''Sort'', Num 3), (''Seq Scan'', Num 2)]" by code_simp
  have s: "js_div (js_mul (to_num (getp (props (origin plan_nested ?m)) ACTUAL_TOTAL_TIME))
                                  (to_num (getp (props (origin plan_nested ?m)) ACTUAL_LOOPS)))
                 (js_add (to_num (js_or (getp (props ?m) WORKERS_PLANNED_BY_GATHER) (Some (Num 0))))
                         (Num 1)) = Num 10" by code_simp
  have f: "clamp0 (js_sub (Num 10)
                 (fold (\<lambda>child acc. js_add acc (duration_of child)) (counted ?m) (Num 0))) = Num 5"
    by code_simp
  show ?thesis
    using exclusive_duration [OF m a'] m a c s f by simp
qed

text \<open>
  In \<open>plan_nested\<close> the only child of the join is the sort, whose exclusive
  duration is 3; the claim gives the join 10 - 3 = 7, the code gives it 5.
\<close>

theorem exclusive_duration_direct_children_counterexample:
  "map (\<lambda>c. (node_type (props c), getp (props c) EXCLUSIVE_DURATION))
       (Plans (content_Plan (createPlan plan_nested))) = [(''Sort'', Some (Num 3))]
   \<and> getp (props (content_Plan (createPlan plan_nested))) ACTUAL_TOTAL_TIME = Some (Num 10)
   \<and> getp (props (content_Plan (createPlan plan_nested))) EXCLUSIVE_DURATION = Some (Num 5)
   \<and> getp (props (content_Plan (createPlan plan_nested))) EXCLUSIVE_DURATION
       \<noteq> Some (clamp0 (js_sub (Num 10)
            (sumBy (filter (\<lambda>c. parent_relationship (props c) \<noteq> Some ''InitPlan'')
                      (Plans (content_Plan (createPlan plan_nested)))) duration_of)))"
  by code_simp

text \<open>
  C3, as the code has it: in the enriched plan, the main tree and the relocated
  CTE subtrees alike, every child that is neither an InitPlan nor a SubPlan has
  as \<open>workers_planned_by_gather\<close> the \<open>workers_planned\<close> of its parent when
  that is truthy (defined, not 0 and not NaN) and the parent's own
  \<open>workers_planned_by_gather\<close> otherwise: a parent planned with 0 workers hands
  down what it inherited, not 0.
\<close>

theorem workers_planned_by_gather:
  "\<forall>m \<in> set (flat (content_Plan (createPlan t)) @ concat (map flat (ctes (createPlan t)))).
     \<forall>c \<in> set (Plans m).
       parent_relationship (props c) \<noteq> Some ''InitPlan'' \<and>
       parent_relationship (props c) \<noteq> Some ''SubPlan'' \<longrightarrow>
       getp (props c) WORKERS_PLANNED_BY_GATHER
         = (if truthy (getp (props m) WORKERS_PLANNED) then getp (props m) WORKERS_PLANNED
            else getp (props m) WORKERS_PLANNED_BY_GATHER)"
proof -
  obtain n' pushed nid' where pn: "processNode 1 t = (n', pushed, nid')"
    by (cases "processNode 1 t") auto
  have "\<forall>m \<in> set (flat n' @ concat (map flat pushed)). child_ok m"
    using process_children_ok(1) [OF pn] .
  then show ?thesis
    unfolding createPlan_eq [OF pn] child_ok_def js_or_def by blast
qed

text \<open>
  The theorem in \<open>plan_gather\<close>: the child of the Gather planned with 3 workers
  gets 3.
\<close>

theorem workers_planned_by_gather_witness:
  "content_Plan (createPlan plan_gather) \<in> set (flat (content_Plan (createPlan plan_gather)))
   \<and> hd (Plans (content_Plan (createPlan plan_gather)))
       \<in> set (Plans (content_Plan (createPlan plan_gather)))
   \<and> parent_relationship (props (hd (Plans (content_Plan (createPlan plan_gather))))) = None
   \<and> getp (props (content_Plan (createPlan plan_gather))) WORKERS_PLANNED = Some (Num 3)
   \<and> getp (props (hd (Plans (content_Plan (createPlan plan_gather))))) WORKERS_PLANNED_BY_GATHER
       = Some (Num 3)"
proof -
  let ?m = "content_Plan (createPlan plan_gather)"
  have m: "?m \<in> set (flat ?m @ concat (map flat (ctes (createPlan plan_gather))))"
    by (subst flat_Plans) simp
  have m': "?m \<in> set (flat ?m)"
    by (subst flat_Plans) simp
  have "length (Plans ?m) = 1" by code_simp
  then have c: "hd (Plans ?m) \<in> set (Plans ?m)"
    by (cases "Plans ?m") simp_all
  have r: "parent_relationship (props (hd (Plans ?m))) = None" by code_simp
  have w: "getp (props ?m) WORKERS_PLANNED = Some (Num 3)" by code_simp
  have "getp (props (hd (Plans ?m))) WORKERS_PLANNED_BY_GATHER
         = (if truthy (getp (props ?m) WORKERS_PLANNED) then getp (props ?m) WORKERS_PLANNED
            else getp (props ?m) WORKERS_PLANNED_BY_GATHER)"
    using workers_planned_by_gather [of plan_gather] m c r by simp
  then show ?thesis using m' c r w by simp
qed

text \<open>
  In \<open>plan_gather\<close> the node under the Gather is planned with 0 workers and
  inherits 3 from the Gather. The claim gives its child 0; the code gives it 3.
\<close>

theorem workers_planned_zero_counterexample:
  "getp (props (hd (Plans (content_Plan (createPlan plan_gather))))) WORKERS_PLANNED
     = Some (Num 0)
   \<and> parent_relationship
        (props (hd (Plans (hd (Plans (content_Plan (createPlan plan_gather))))))) = None
   \<and> getp (props (hd (Plans (hd (Plans (content_Plan (createPlan plan_gather)))))))
        WORKERS_PLANNED_BY_GATHER = Some (Num 3)
   \<and> getp (props (hd (Plans (hd (Plans (content_Plan (createPlan plan_gather)))))))
        WORKERS_PLANNED_BY_GATHER
       \<noteq> getp (props (hd (Plans (content_Plan (createPlan plan_gather))))) WORKERS_PLANNED"
  by code_simp

text \<open>
  C5: after enrichment no node below the root of the main tree is an InitPlan
  whose subplan name starts with \<open>CTE\<close> and a space, and each such node below
  the root of the parsed tree, identified by the number the pre-order walk gives
  it, occurs exactly once in \<open>plan.ctes\<close>. The list \<open>plan.ctes\<close> holds, in
  pre-order, the nodes below the root that \<open>isCTE\<close> accepts, and nothing twice.
\<close>

theorem cte_relocation:
  "(\<forall>c \<in> set (descendants (content_Plan (createPlan t))). \<not> cte_by_spec c)
   \<and> (\<forall>e \<in> set (enumerate 2 (descendants t)).
        cte_by_spec (snd e) \<longrightarrow>
        count (mset (map (\<lambda>m. nodeId (props m)) (ctes (createPlan t)))) (Some (fst e)) = 1)
   \<and> map (\<lambda>m. (nodeId (props m), node_type (props m))) (ctes (createPlan t))
       = map (\<lambda>e. (Some (fst e), node_type (props (snd e))))
           (filter (\<lambda>e. isCTE (props (snd e))) (enumerate 2 (descendants t)))
   \<and> distinct (map (\<lambda>m. nodeId (props m)) (ctes (createPlan t)))"
proof -
  obtain n' pushed nid' where pn: "processNode 1 t = (n', pushed, nid')"
    by (cases "processNode 1 t") auto
  let ?sel = "filter (\<lambda>e. isCTE (props (snd e))) (enumerate 2 (descendants t))"
  have ok: "\<forall>m \<in> set (flat n' @ concat (map flat pushed)). child_ok m"
    using process_children_ok(1) [OF pn] .
  have a: "\<forall>c \<in> set (descendants n'). \<not> cte_by_spec c"
  proof
    fix c assume "c \<in> set (descendants n')"
    then obtain m where "m \<in> set (flat n')" "c \<in> set (Plans m)"
      using descendants_child [of c n'] by (auto simp: descendants_def)
    then have "\<not> isCTE (props c)" using ok by (auto simp: child_ok_def)
    then show "\<not> cte_by_spec c" using cte_by_spec_isCTE by blast
  qed
  have "map node_tag pushed = map tag_of (filter (\<lambda>e. snd (snd e)) (enumerate (Suc 1) (tl (map node_key (flat t)))))"
    using process_ids(1) [OF pn] by simp
  then have l: "map node_tag pushed = map (\<lambda>e. (Some (fst e), node_type (props (snd e)))) ?sel"
    by (simp add: tl_flat tag_of_filter_enumerate numeral_2_eq_2)
  have ids: "map (\<lambda>m. nodeId (props m)) pushed = map (\<lambda>e. Some (fst e)) ?sel"
    using arg_cong [OF l, of "map fst"] by (simp add: node_tag_def comp_def)
  have "distinct (map fst (enumerate 2 (descendants t)))"
    by (simp add: enumerate_eq_zip)
  then have "distinct (map fst ?sel)"
    by (rule distinct_map_filter)
  then have "distinct (map Some (map fst ?sel))"
    by (subst distinct_map) (simp add: inj_on_def)
  then have d: "distinct (map (\<lambda>m. nodeId (props m)) pushed)"
    by (simp add: ids comp_def)
  have b: "\<forall>e \<in> set (enumerate 2 (descendants t)).
        cte_by_spec (snd e) \<longrightarrow>
        count (mset (map (\<lambda>m. nodeId (props m)) pushed)) (Some (fst e)) = 1"
  proof (intro ballI impI)
    fix e assume e: "e \<in> set (enumerate 2 (descendants t))" and "cte_by_spec (snd e)"
    then have "e \<in> set ?sel" using cte_by_spec_isCTE by simp
    then have "Some (fst e) \<in> set (map (\<lambda>m. nodeId (props m)) pushed)"
      unfolding ids by force
    then show "count (mset (map (\<lambda>m. nodeId (props m)) pushed)) (Some (fst e)) = 1"
      using d by (simp add: distinct_count_atmost_1)
  qed
  show ?thesis
    unfolding createPlan_eq [OF pn]
    using a b l d by (simp add: node_tag_def [abs_def])
qed

text \<open>
  The theorem in \<open>plan_cte\<close>: the CTE child, the second node of the walk, has
  left the main tree, where the scan stays, and is the one entry of \<open>plan.ctes\<close>.
\<close>

theorem cte_relocation_witness:
  "(2, hd (Plans plan_cte)) \<in> set (enumerate 2 (descendants plan_cte))
   \<and> cte_by_spec (hd (Plans plan_cte))
   \<and> map (\<lambda>m. (nodeId (props m), node_type (props m))) (ctes (createPlan plan_cte))
       = [(Some 2, ''Aggregate'')]
   \<and> map (\<lambda>m. (nodeId (props m), node_type (props m)))
        (descendants (content_Plan (createPlan plan_cte))) = [(Some 3, ''CTE Scan'')]
   \<and> \<not> cte_by_spec (hd (descendants (content_Plan (createPlan plan_cte))))
   \<and> count (mset (map (\<lambda>m. nodeId (props m)) (ctes (createPlan plan_cte)))) (Some 2) = 1"
proof -
  have e: "(2, hd (Plans plan_cte)) \<in> set (enumerate 2 (descendants plan_cte))"
    by (simp add: plan_cte_def descendants_def)
  have s: "cte_by_spec (hd (Plans plan_cte))" by code_simp
  have l: "map (\<lambda>m. (nodeId (props m), node_type (props m))) (ctes (createPlan plan_cte))
       = [(Some 2, ''Aggregate'')]" by code_simp
  have k: "map (\<lambda>m. (nodeId (props m), node_type (props m)))
        (descendants (content_Plan (createPlan plan_cte))) = [(Some 3, ''CTE Scan'')]" by code_simp
  have h: "hd (descendants (content_Plan (createPlan plan_cte)))
             \<in> set (descendants (content_Plan (createPlan plan_cte)))"
    using k by (cases "descendants (content_Plan (createPlan plan_cte))") simp_all
  note th = cte_relocation [of plan_cte]
  have n: "\<not> cte_by_spec (hd (descendants (content_Plan (createPlan plan_cte))))"
    using th h by blast
  have c: "count (mset (map (\<lambda>m. nodeId (props m)) (ctes (createPlan plan_cte)))) (Some 2) = 1"
    using th e s by force
  show ?thesis using e s l k n c by blast
qed

text \<open>
  C8: the nodes of the enriched plan, those of the main tree together with those
  of the subtrees relocated to \<open>plan.ctes\<close>, are the nodes of the original tree,
  the node at place \<open>i\<close> of its pre-order carrying the identifier \<open>i\<close>, counted
  from 1. So the identifiers are exactly 1 to \<open>N\<close>, the number of nodes, and no
  two nodes share one.
\<close>

theorem node_ids_preorder:
  "mset (map (\<lambda>m. (nodeId (props m), node_type (props m)))
          (flat (content_Plan (createPlan t)) @ concat (map flat (ctes (createPlan t)))))
     = mset (map (\<lambda>e. (Some (fst e), node_type (props (snd e)))) (enumerate 1 (flat t)))
   \<and> mset (map (\<lambda>m. nodeId (props m))
          (flat (content_Plan (createPlan t)) @ concat (map flat (ctes (createPlan t)))))
     = mset (map Some [1 ..< Suc (length (flat t))])
   \<and> distinct (map (\<lambda>m. nodeId (props m))
          (flat (content_Plan (createPlan t)) @ concat (map flat (ctes (createPlan t)))))"
proof -
  obtain n' pushed nid' where pn: "processNode 1 t = (n', pushed, nid')"
    by (cases "processNode 1 t") auto
  let ?out = "flat n' @ concat (map flat pushed)"
  have a: "mset (map node_tag ?out)
     = mset (map (\<lambda>e. (Some (fst e), node_type (props (snd e)))) (enumerate 1 (flat t)))"
    using process_ids(1) [OF pn] by (simp only: tag_of_enumerate)
  have e1: "map fst (map node_tag ?out) = map (\<lambda>m. nodeId (props m)) ?out"
    by (simp add: node_tag_def comp_def)
  have e2: "map fst (map (\<lambda>e. (Some (fst e), node_type (props (snd e)))) (enumerate 1 (flat t)))
          = map Some [1 ..< Suc (length (flat t))]"
    using ids_of_enumerate [of "\<lambda>m. node_type (props m)" 1 "flat t"]
    by (simp only: plus_1_eq_Suc)
  have "mset (map fst (map node_tag ?out))
     = mset (map fst (map (\<lambda>e. (Some (fst e), node_type (props (snd e)))) (enumerate 1 (flat t))))"
    using arg_cong [OF a, of "image_mset fst"] by (simp only: mset_map [symmetric])
  then have b: "mset (map (\<lambda>m. nodeId (props m)) ?out) = mset (map Some [1 ..< Suc (length (flat t))])"
    by (simp only: e1 e2)
  have "distinct (map Some [1 ..< Suc (length (flat t))])"
    by (simp add: distinct_map)
  then have c: "distinct (map (\<lambda>m. nodeId (props m)) ?out)"
    using b mset_eq_imp_distinct_iff by blast
  show ?thesis
    unfolding createPlan_eq [OF pn] using a b c by (simp add: node_tag_def [abs_def])
qed

text \<open>
  C10, as the code has it: for every node of the enriched plan and each of the
  twelve counters, the exclusive counter is always assigned, to the counter the
  node was parsed with minus the sum of the counters of those of its parsed
  children that are no CTE nodes, a missing counter of a child counting as 0.
  The CTE children have left \<open>Plans\<close> before the sum is taken; the other
  InitPlan children are in it. The result is not clamped, and it is NaN when the
  node lacks the counter.
\<close>

theorem exclusive_counters:
  assumes "m \<in> set (flat (content_Plan (createPlan t)) @ concat (map flat (ctes (createPlan t))))"
    and "k \<in> set properties"
  shows "getp (props m) (exclusive k)
           = Some (js_sub (to_num (getp (props (origin t m)) k))
                     (sumBy (filter (\<lambda>c. \<not> isCTE (props c)) (Plans (origin t m))) (counter_of k)))
       \<and> (getp (props (origin t m)) k = None \<longrightarrow> getp (props m) (exclusive k) = Some NaN)"
proof -
  let ?Q = "\<lambda>n0 m. getp (props m) (exclusive k)
           = Some (js_sub (to_num (getp (props n0) k))
                     (sumBy (filter (\<lambda>c. \<not> isCTE (props c)) (Plans n0)) (counter_of k)))"
  have "?Q (Node p0 cs) (fst (processNode nid (Node p cs)))"
    if "writes {WORKERS_PLANNED_BY_GATHER} p0 p" for nid p0 p cs
    using exclusive_local [OF that assms(2), of nid cs] by simp
  then have "?Q (origin t m) m"
    using createPlan_sources [where Q = ?Q and t = t] assms(1) by blast
  then show ?thesis by (auto simp: js_sub_def)
qed

text \<open>
  The theorem at the root of \<open>plan_initplan\<close>, a node with 2 shared hit blocks
  over a scan with 5 of them and an InitPlan that is no CTE with 1: the exclusive
  counter is 2 - (5 + 1) = -4.
\<close>

theorem exclusive_counters_witness:
  "content_Plan (createPlan plan_initplan)
     \<in> set (flat (content_Plan (createPlan plan_initplan))
             @ concat (map flat (ctes (createPlan plan_initplan))))
   \<and> SHARED_HIT_BLOCKS \<in> set properties
   \<and> getp (props (origin plan_initplan (content_Plan (createPlan plan_initplan)))) SHARED_HIT_BLOCKS
       = Some (Num 2)
   \<and> map (\<lambda>c. (parent_relationship (props c), counter_of SHARED_HIT_BLOCKS c))
        (filter (\<lambda>c. \<not> isCTE (props c))
           (Plans (origin plan_initplan (content_Plan (createPlan plan_initplan)))))
       = [(None, Num 5), (Some ''InitPlan'', Num 1)]
   \<and> getp (props (content_Plan (createPlan plan_initplan))) EXCLUSIVE_SHARED_HIT_BLOCKS
       = Some (Num (- 4))"
proof -
  let ?m = "content_Plan (createPlan plan_initplan)"
  have m: "?m \<in> set (flat ?m @ concat (map flat (ctes (createPlan plan_initplan))))"
    by (subst flat_Plans) simp
  have k: "SHARED_HIT_BLOCKS \<in> set properties" by (simp add: properties_def)
  have a: "getp (props (origin plan_initplan ?m)) SHARED_HIT_BLOCKS = Some (Num 2)" by code_simp
  have c: "map (\<lambda>c. (parent_relationship (props c), counter_of SHARED_HIT_BLOCKS c))
        (filter (\<lambda>c. \<not> isCTE (props c)) (Plans (origin plan_initplan ?m)))
       = [(None, Num 5), (Some ''InitPlan'', Num 1)]" by code_simp
  have v: "js_sub (to_num (getp (props (origin plan_initplan ?m)) SHARED_HIT_BLOCKS))
             (sumBy (filter (\<lambda>c. \<not> isCTE (props c)) (Plans (origin plan_initplan ?m)))
                (counter_of SHARED_HIT_BLOCKS))
           = Num (- 4)" by code_simp
  show ?thesis
    using exclusive_counters [OF m k] m k a c v by simp
qed

text \<open>
  In \<open>plan_cte\<close> the node has 10 shared hit blocks, its CTE child, an InitPlan,
  has 3 and the scan 4. The claim counts the InitPlan in and gives 10 - 7 = 3;
  the code gives 10 - 4 = 6.
\<close>

theorem exclusive_counters_cte_counterexample:
  "map (\<lambda>c. (parent_relationship (props c), getp (props c) SHARED_HIT_BLOCKS)) (Plans plan_cte)
     = [(Some ''InitPlan'', Some (Num 3)), (None, Some (Num 4))]
   \<and> getp (props plan_cte) SHARED_HIT_BLOCKS = Some (Num 10)
   \<and> getp (props (content_Plan (createPlan plan_cte))) EXCLUSIVE_SHARED_HIT_BLOCKS = Some (Num 6)
   \<and> getp (props (content_Plan (createPlan plan_cte))) EXCLUSIVE_SHARED_HIT_BLOCKS
       \<noteq> Some (js_sub (to_num (getp (props plan_cte) SHARED_HIT_BLOCKS))
                 (sumBy (Plans plan_cte) (counter_of SHARED_HIT_BLOCKS)))"
  by code_simp

section \<open>Properties of the tolerant JSON parser\<close>

subsection \<open>Own properties\<close>

lemma insert_key_ordinary: "\<not> is_index k \<Longrightarrow> insert_key k v fs = fs @ [(k, v)]"
  by (induction fs) (auto simp: comes_before_def)

lemma assign_new: "k \<notin> set (map fst fs) \<Longrightarrow> \<not> is_index k \<Longrightarrow> assign k v fs = fs @ [(k, v)]"
  by (simp add: assign_def insert_key_ordinary)

lemma replace_absent:
  "k \<notin> set (map fst fs) \<Longrightarrow> map (\<lambda>e. if fst e = k then (k, v) else e) fs = fs"
  by (induction fs) auto

lemma keys_replace: "map fst (map (\<lambda>e. if fst e = k then (k, v) else e) fs) = map fst fs"
  by (induction fs) auto

lemma assign_last: "k \<notin> set (map fst fs) \<Longrightarrow> assign k v (fs @ [(k, w)]) = fs @ [(k, v)]"
  by (simp add: assign_def replace_absent)

lemma assign_old:
  "k \<in> set (map fst fs) \<Longrightarrow> assign k v fs = map (\<lambda>e. if fst e = k then (k, v) else e) fs"
  by (simp add: assign_def)

lemma keys_insert_key: "set (map fst (insert_key k v fs)) = insert k (set (map fst fs))"
proof (induction fs)
  case Nil
  then show ?case by simp
next
  case (Cons e fs)
  obtain a b where e: "e = (a, b)" by (cases e)
  show ?case using Cons by (cases "comes_before k a") (auto simp: e)
qed

lemma keys_assign_old: "k \<in> set (map fst fs) \<Longrightarrow> map fst (assign k v fs) = map fst fs"
  by (simp add: assign_def keys_replace)

lemma keys_assign: "set (map fst (assign k v fs)) = insert k (set (map fst fs))"
proof (cases "k \<in> set (map fst fs)")
  case True
  then show ?thesis using keys_assign_old [OF True, of v] by auto
next
  case False
  then show ?thesis using keys_insert_key [of k v fs] by (simp add: assign_def)
qed

subsection \<open>Allocation numbers\<close>

lemma ids_fields_append [simp]: "ids_fields (fs @ gs) = ids_fields fs \<union> ids_fields gs"
  by (induction fs) auto

lemma ids_items_append [simp]: "ids_items (xs @ ys) = ids_items xs \<union> ids_items ys"
  by (induction xs) auto

lemma ids_fields_member: "(k, v) \<in> set fs \<Longrightarrow> ids v \<subseteq> ids_fields fs"
  by (induction fs) auto

lemma ids_items_member: "x \<in> set xs \<Longrightarrow> ids x \<subseteq> ids_items xs"
  by (induction xs) auto

lemma ids_fields_map_of: "map_of fs k = Some v \<Longrightarrow> ids v \<subseteq> ids_fields fs"
  using ids_fields_member map_of_SomeD by fast

lemma ids_insert_key: "ids_fields (insert_key k v fs) = ids v \<union> ids_fields fs"
proof (induction fs)
  case Nil
  then show ?case by simp
next
  case (Cons e fs)
  obtain a b where e: "e = (a, b)" by (cases e)
  show ?case using Cons by (cases "comes_before k a") (auto simp: e)
qed

lemma digit_int: "is_digit c \<Longrightarrow> (48 :: int) \<le> of_char c"
proof -
  assume "is_digit c"
  then have "int 48 \<le> int (of_char c)" unfolding is_digit_def by linarith
  then show ?thesis by (simp only: of_nat_of_char)
qed

lemma index_value_nonneg:
  "list_all is_digit s \<Longrightarrow> (0 :: int) \<le> acc \<Longrightarrow> 0 \<le> foldl (\<lambda>acc c. 10 * acc + (of_char c - 48)) acc s"
proof (induction s arbitrary: acc)
  case Nil
  then show ?case by simp
next
  case (Cons c s)
  have "(48 :: int) \<le> of_char c"
    using Cons.prems(1) by (simp add: digit_int)
  then have "0 \<le> 10 * acc + (of_char c - 48)" using Cons.prems(2) by simp
  then show ?case using Cons by simp
qed

lemma index_nth: "is_index k \<Longrightarrow> index_value k < int (length xs) \<Longrightarrow> nat (index_value k) < length xs"
  using index_value_nonneg [of k "0 :: int"] by (simp add: is_index_def index_value_def)

lemma ids_replace:
  "ids_fields (map (\<lambda>e. if fst e = k then (k, v) else e) fs) \<subseteq> ids v \<union> ids_fields fs"
  by (induction fs) auto

lemma ids_assign: "ids_fields (assign k v fs) \<subseteq> ids v \<union> ids_fields fs"
  using ids_replace [of k v fs] by (auto simp: assign_def ids_insert_key)

lemma ids_items_update: "ids_items (xs[n := v]) \<subseteq> ids v \<union> ids_items xs"
proof (induction xs arbitrary: n)
  case Nil
  then show ?case by simp
next
  case (Cons x xs)
  then show ?case by (cases n) auto
qed

lemma ids_set_prop: "ids (set_prop object k w) \<subseteq> ids object \<union> ids w"
proof (cases object)
  case (Obj i p fs)
  then show ?thesis using ids_assign [of k w fs] by auto
next
  case (Arr i xs ns)
  then show ?thesis
    using ids_assign [of k w ns] ids_items_update [of xs "nat (index_value k)" w] by auto
qed simp_all

lemma ids_get_prop: "get_prop object k = Some v \<Longrightarrow> ids v \<subseteq> ids object"
proof (cases object)
  case (Obj i p fs)
  assume "get_prop object k = Some v"
  then show ?thesis using Obj ids_fields_map_of [of fs k v] by auto
next
  case (Arr i xs ns)
  assume "get_prop object k = Some v"
  then show ?thesis
    using Arr ids_fields_map_of [of ns k v] ids_items_member [of v xs] index_nth [of k xs]
    by (auto split: if_splits)
qed simp_all

lemma ids_assign_undefined: "ids (assign_undefined object k) \<subseteq> ids object"
  using ids_set_prop [of object k Undefined] by (auto simp: assign_undefined_def)

lemma ids_baseMerge:
  "ids (baseMerge object source) \<subseteq> ids object \<union> ids source"
  "ids (baseMerge_fields object fs) \<subseteq> ids object \<union> ids_fields fs"
  "ids (baseMerge_items object n xs) \<subseteq> ids object \<union> ids_items xs"
  "ids (baseMergeDeep object k source) \<subseteq> ids object \<union> ids source"
proof (induction object source and object fs and object n xs and object k source
       rule: baseMerge_baseMerge_fields_baseMerge_items_baseMergeDeep.induct)
  case (1 object v)
  then show ?case by simp
next
  case (2 object)
  then show ?case by simp
next
  case (3 object i p fs)
  then show ?case by auto
next
  case (4 object i xs ns)
  then show ?case by auto
next
  case (5 object)
  then show ?case by simp
next
  case (6 object k srcValue rest)
  then show ?case by auto
next
  case (7 object n)
  then show ?case by simp
next
  case (8 object n srcValue rest)
  then show ?case by auto
next
  case (9 object k v)
  then show ?case using ids_set_prop [of object k "Prim v"] by simp
next
  case (10 object k)
  then show ?case using ids_assign_undefined [of object k] by auto
next
  case (11 object k i p fs)
  show ?case
  proof (cases "k = ''__proto__''")
    case True
    then show ?thesis using ids_assign_undefined [of object k] by auto
  next
    case False
    let ?new = "case get_prop object k of
                  Some objValue \<Rightarrow> if is_container objValue then objValue else Obj i True []
                | None \<Rightarrow> Obj i True []"
    have n: "ids ?new \<subseteq> ids object \<union> {i}"
      using ids_get_prop [of object k] by (auto split: option.splits)
    have "ids (baseMerge_fields ?new fs) \<subseteq> ids ?new \<union> ids_fields fs"
      using "11.IH" [OF False refl] .
    then have "ids (baseMerge_fields ?new fs) \<subseteq> ids object \<union> insert i (ids_fields fs)"
      using n by auto
    then show ?thesis
      using ids_set_prop [of object k "baseMerge_fields ?new fs"] False by (auto simp: Let_def)
  qed
next
  case (12 object k i xs ns)
  show ?case
  proof (cases "k = ''__proto__''")
    case True
    then show ?thesis using ids_assign_undefined [of object k] by auto
  next
    case False
    let ?new = "case get_prop object k of
                  Some objValue \<Rightarrow> if is_array objValue then objValue else Arr i [] []
                | None \<Rightarrow> Arr i [] []"
    have n: "ids ?new \<subseteq> ids object \<union> {i}"
      using ids_get_prop [of object k] by (auto split: option.splits)
    have 1: "ids (baseMerge_items ?new 0 xs) \<subseteq> ids ?new \<union> ids_items xs"
      using "12.IH"(1) [OF False refl] .
    have 2: "ids (baseMerge_fields (baseMerge_items ?new 0 xs) ns)
              \<subseteq> ids (baseMerge_items ?new 0 xs) \<union> ids_fields ns"
      using "12.IH"(2) [OF False refl] .
    have "ids (baseMerge_fields (baseMerge_items ?new 0 xs) ns)
            \<subseteq> ids object \<union> insert i (ids_items xs \<union> ids_fields ns)"
      using n 1 2 by auto
    then show ?thesis
      using ids_set_prop [of object k "baseMerge_fields (baseMerge_items ?new 0 xs) ns"] False
      by (auto simp: Let_def)
  qed
qed

lemma ids_merge: "ids (merge object source) \<subseteq> ids object \<union> ids source"
  using ids_baseMerge(1) [of object source] by (auto simp: merge_def)

lemma merge_at_absent:
  "i \<notin> ids x \<Longrightarrow> merge_at i s x = x"
  "i \<notin> ids_fields fs \<Longrightarrow> map (\<lambda>(k, v). (k, merge_at i s v)) fs = fs"
  "i \<notin> ids_items xs \<Longrightarrow> map (merge_at i s) xs = xs"
  by (induction x and fs and xs rule: ids_ids_fields_ids_items.induct) auto

subsection \<open>Values without their allocation numbers\<close>

lemma plain_simps:
  "plain (Prim v) = Prim v"
  "plain Undefined = Undefined"
  "plain (Obj i p fs) = Obj () p (plain_fields fs)"
  "plain (Arr i xs ns) = Arr () (map plain xs) (plain_fields ns)"
  by (simp_all add: plain_def plain_fields_def map_prod_def)

lemma plain_fields_simps:
  "plain_fields [] = []"
  "plain_fields ((k, v) # fs) = (k, plain v) # plain_fields fs"
  "plain_fields (fs @ gs) = plain_fields fs @ plain_fields gs"
  by (simp_all add: plain_fields_def)

lemma plain_keys: "map fst (plain_fields fs) = map fst fs"
  by (induction fs) (auto simp: plain_fields_simps)

lemma plain_map_of: "map_of (plain_fields fs) k = map_option plain (map_of fs k)"
  by (induction fs) (auto simp: plain_fields_simps)

lemma plain_is_container: "is_container (plain v) = is_container v"
  by (cases v) (simp_all add: plain_simps)

lemma plain_is_array: "is_array (plain v) = is_array v"
  by (cases v) (simp_all add: plain_simps)

lemma plain_keys_of: "keys_of (plain v) = keys_of v"
  by (cases v) (simp_all add: plain_simps plain_keys)

lemma plain_has_prototype: "has_prototype (plain v) = has_prototype v"
  by (cases v) (simp_all add: plain_simps)

lemma plain_key_in: "key_in (plain v) k = key_in v k"
  by (simp add: key_in_def plain_keys_of plain_has_prototype)

lemma plain_insert_key: "plain_fields (insert_key k w fs) = insert_key k (plain w) (plain_fields fs)"
proof (induction fs)
  case Nil
  then show ?case by (simp add: plain_fields_simps)
next
  case (Cons e fs)
  obtain a b where e: "e = (a, b)" by (cases e)
  show ?case using Cons by (cases "comes_before k a") (auto simp: e plain_fields_simps)
qed

lemma plain_replace:
  "plain_fields (map (\<lambda>e. if fst e = k then (k, w) else e) fs)
     = map (\<lambda>e. if fst e = k then (k, plain w) else e) (plain_fields fs)"
  by (induction fs) (auto simp: plain_fields_simps)

lemma plain_assign: "plain_fields (assign k w fs) = assign k (plain w) (plain_fields fs)"
  by (simp add: assign_def plain_keys plain_insert_key plain_replace)

lemma plain_get_prop: "get_prop (plain object) k = map_option plain (get_prop object k)"
proof (cases object)
  case (Arr i xs ns)
  then show ?thesis using index_nth [of k xs] by (auto simp: plain_simps plain_map_of)
qed (simp_all add: plain_simps plain_map_of)

lemma plain_set_prop: "plain (set_prop object k w) = set_prop (plain object) k (plain w)"
  by (cases object) (simp_all add: plain_simps plain_assign map_update)

lemma plain_assign_undefined: "plain (assign_undefined object k) = assign_undefined (plain object) k"
  using plain_set_prop [of object k Undefined]
  by (simp add: assign_undefined_def plain_key_in plain_simps)

lemma plain_baseMerge:
  "plain (baseMerge object source) = baseMerge (plain object) (plain source)"
  "plain (baseMerge_fields object fs) = baseMerge_fields (plain object) (plain_fields fs)"
  "plain (baseMerge_items object n xs) = baseMerge_items (plain object) n (map plain xs)"
  "plain (baseMergeDeep object k source) = baseMergeDeep (plain object) k (plain source)"
proof (induction object source and object fs and object n xs and object k source
       rule: baseMerge_baseMerge_fields_baseMerge_items_baseMergeDeep.induct)
  case (1 object v)
  then show ?case by (simp add: plain_simps)
next
  case (2 object)
  then show ?case by (simp add: plain_simps)
next
  case (3 object i p fs)
  then show ?case by (simp add: plain_simps)
next
  case (4 object i xs ns)
  then show ?case by (simp add: plain_simps)
next
  case (5 object)
  then show ?case by (simp add: plain_fields_simps)
next
  case (6 object k srcValue rest)
  then show ?case by (simp add: plain_fields_simps)
next
  case (7 object n)
  then show ?case by simp
next
  case (8 object n srcValue rest)
  then show ?case by simp
next
  case (9 object k v)
  then show ?case using plain_set_prop [of object k "Prim v"] by (simp add: plain_simps)
next
  case (10 object k)
  then show ?case by (simp add: plain_simps plain_assign_undefined)
next
  case (11 object k i p fs)
  show ?case
  proof (cases "k = ''__proto__''")
    case True
    then show ?thesis by (simp add: plain_simps plain_assign_undefined)
  next
    case False
    let ?new = "case get_prop object k of
                  Some objValue \<Rightarrow> if is_container objValue then objValue else Obj i True []
                | None \<Rightarrow> Obj i True []"
    let ?pnew = "case get_prop (plain object) k of
                  Some objValue \<Rightarrow> if is_container objValue then objValue else Obj () True []
                | None \<Rightarrow> Obj () True []"
    have n: "plain ?new = ?pnew"
      by (auto simp: plain_get_prop plain_simps plain_fields_simps plain_is_container
               split: option.splits)
    have "plain (baseMerge_fields ?new fs) = baseMerge_fields (plain ?new) (plain_fields fs)"
      using "11.IH" [OF False refl] .
    then have "plain (baseMerge_fields ?new fs) = baseMerge_fields ?pnew (plain_fields fs)"
      by (simp only: n)
    then show ?thesis
      using plain_set_prop [of object k "baseMerge_fields ?new fs"] False
      by (simp add: Let_def plain_simps)
  qed
next
  case (12 object k i xs ns)
  show ?case
  proof (cases "k = ''__proto__''")
    case True
    then show ?thesis by (simp add: plain_simps plain_assign_undefined)
  next
    case False
    let ?new = "case get_prop object k of
                  Some objValue \<Rightarrow> if is_array objValue then objValue else Arr i [] []
                | None \<Rightarrow> Arr i [] []"
    let ?pnew = "case get_prop (plain object) k of
                  Some objValue \<Rightarrow> if is_array objValue then objValue else Arr () [] []
                | None \<Rightarrow> Arr () [] []"
    have n: "plain ?new = ?pnew"
      by (auto simp: plain_get_prop plain_simps plain_fields_simps plain_is_array
               split: option.splits)
    have 1: "plain (baseMerge_items ?new 0 xs) = baseMerge_items (plain ?new) 0 (map plain xs)"
      using "12.IH"(1) [OF False refl] .
    have 2: "plain (baseMerge_fields (baseMerge_items ?new 0 xs) ns)
              = baseMerge_fields (plain (baseMerge_items ?new 0 xs)) (plain_fields ns)"
      using "12.IH"(2) [OF False refl] .
    have "plain (baseMerge_fields (baseMerge_items ?new 0 xs) ns)
            = baseMerge_fields (baseMerge_items ?pnew 0 (map plain xs)) (plain_fields ns)"
      by (simp only: 1 2 n)
    then show ?thesis
      using plain_set_prop [of object k "baseMerge_fields (baseMerge_items ?new 0 xs) ns"] False
      by (simp add: Let_def plain_simps)
  qed
qed

lemma plain_merge: "plain (merge object source) = merge (plain object) (plain source)"
  by (simp add: merge_def plain_is_container plain_baseMerge(1))

lemma plain_unwrap: "map_option plain (unwrap r) = unwrap (map_option plain r)"
  by (auto simp: unwrap_def plain_simps split: option.splits json.splits list.splits)

subsection \<open>Fields with separate allocation numbers\<close>

lemma separate_append:
  "separate fs \<Longrightarrow> k \<notin> set (map fst fs) \<Longrightarrow> ids x \<inter> ids_fields fs = {}
   \<Longrightarrow> separate (fs @ [(k, x)])"
proof (induction fs)
  case Nil
  then show ?case by simp
next
  case (Cons e fs)
  obtain k' v' where e: "e = (k', v')" by (cases e)
  have 1: "ids x \<inter> ids_fields fs = {}" using Cons.prems(3) e by auto
  have 2: "ids v' \<inter> ids x = {}" using Cons.prems(3) e by auto
  have "separate (fs @ [(k, x)])" using Cons.IH [OF _ _ 1] Cons.prems(1,2) e by simp
  then show ?case using Cons.prems(1,2) e 2 by (auto simp: ids_fields_append)
qed

lemma assign_head: "k \<notin> set (map fst fs) \<Longrightarrow> assign k w ((k, v) # fs) = (k, w) # fs"
  by (simp add: assign_def replace_absent)

lemma assign_tail:
  "k \<noteq> k' \<Longrightarrow> k \<in> set (map fst fs) \<Longrightarrow> assign k w ((k', v) # fs) = (k', v) # assign k w fs"
  by (simp add: assign_def)

lemma map_of_keys: "map_of fs k = Some v \<Longrightarrow> k \<in> set (map fst fs)"
  by (induction fs) (auto split: if_splits)

lemma separate_assign:
  "separate fs \<Longrightarrow> map_of fs k = Some old \<Longrightarrow> ids w \<subseteq> ids old \<union> X
   \<Longrightarrow> X \<inter> ids_fields fs = {} \<Longrightarrow> separate (assign k w fs)"
proof (induction fs)
  case Nil
  then show ?case by simp
next
  case (Cons e fs)
  obtain k' v' where e: "e = (k', v')" by (cases e)
  show ?case
  proof (cases "k' = k")
    case True
    then have o: "old = v'" using Cons.prems(2) e by simp
    have nk: "k \<notin> set (map fst fs)" using Cons.prems(1) e True by simp
    have "ids w \<inter> ids_fields fs = {}" using Cons.prems e o by auto
    then show ?thesis using Cons.prems(1) e True nk by (simp add: assign_head)
  next
    case False
    then have m: "map_of fs k = Some old" using Cons.prems(2) e by simp
    have kin: "k \<in> set (map fst fs)" using map_of_keys [OF m] .
    have s: "separate (assign k w fs)"
      using Cons.IH [OF _ m Cons.prems(3)] Cons.prems(1,4) e by auto
    have "ids_fields (assign k w fs) \<subseteq> ids w \<union> ids_fields fs" using ids_assign [of k w fs] .
    moreover have "ids old \<subseteq> ids_fields fs" using ids_fields_map_of [OF m] .
    moreover have "ids v' \<inter> ids_fields fs = {}" using Cons.prems(1) e by simp
    moreover have "X \<inter> ids v' = {}" using Cons.prems(4) e by auto
    ultimately have "ids v' \<inter> ids_fields (assign k w fs) = {}"
      using Cons.prems(3) by blast
    then show ?thesis
      using s Cons.prems(1) e False kin by (simp add: assign_tail keys_assign_old)
  qed
qed

lemma merge_at_fields:
  "separate fs \<Longrightarrow> map_of fs k = Some old \<Longrightarrow> j \<in> ids old \<Longrightarrow> merge_at j x old = w
   \<Longrightarrow> map (\<lambda>(k', v'). (k', merge_at j x v')) fs = assign k w fs"
proof (induction fs)
  case Nil
  then show ?case by simp
next
  case (Cons e fs)
  obtain k' v' where e: "e = (k', v')" by (cases e)
  show ?case
  proof (cases "k' = k")
    case True
    then have o: "old = v'" using Cons.prems(2) e by simp
    have nk: "k \<notin> set (map fst fs)" using Cons.prems(1) e True by simp
    have "j \<notin> ids_fields fs" using Cons.prems(1,3) e o by auto
    then have "map (\<lambda>(k', v'). (k', merge_at j x v')) fs = fs" by (rule merge_at_absent(2))
    then show ?thesis using e True o Cons.prems(4) nk by (simp add: assign_head)
  next
    case False
    then have m: "map_of fs k = Some old" using Cons.prems(2) e by simp
    have kin: "k \<in> set (map fst fs)" using map_of_keys [OF m] .
    have "ids old \<subseteq> ids_fields fs" using ids_fields_map_of [OF m] .
    then have "j \<notin> ids v'" using Cons.prems(1,3) e by auto
    then have v: "merge_at j x v' = v'" by (rule merge_at_absent(1))
    have "map (\<lambda>(k', v'). (k', merge_at j x v')) fs = assign k w fs"
      using Cons.IH [OF _ m Cons.prems(3,4)] Cons.prems(1) e by simp
    then show ?thesis using e False kin v by (simp add: assign_tail)
  qed
qed

subsection \<open>The value the handlers build\<close>

lemma build_TArray:
  "build a (TArray xs) = (Arr a (fst (build_items (Suc a) xs)) [], snd (build_items (Suc a) xs))"
  by (simp add: case_prod_beta)

lemma build_TObject:
  "build a (TObject ms)
     = (Obj a True (fst (build_members (Suc a) [] ms)), snd (build_members (Suc a) [] ms))"
  by (simp add: case_prod_beta)

lemma build_items_Cons:
  "build_items a (x # xs)
     = (fst (build a x) # fst (build_items (snd (build a x)) xs),
        snd (build_items (snd (build a x)) xs))"
  by (simp add: case_prod_beta)

lemma build_members_Cons:
  "build_members a fs ((k, t) # ms)
     = build_members (snd (build a t))
         (case map_of fs k of
            None \<Rightarrow> fs @ [(k, fst (build a t))]
          | Some old \<Rightarrow> assign k (merge old (fst (build a t))) fs) ms"
  by (simp add: case_prod_beta)

lemma build_container: "\<not> is_scalar t \<Longrightarrow> is_container (fst (build a t))"
  by (cases t) (simp_all add: case_prod_beta)

lemma range_join:
  fixes a :: nat
  assumes "X \<subseteq> F \<union> {a1 ..< a2}" and "F \<subseteq> F0 \<union> Y" and "Y \<subseteq> {a ..< a1}"
    and "a \<le> a1" and "a1 \<le> a2"
  shows "X \<subseteq> F0 \<union> {a ..< a2} \<and> a \<le> a2"
proof
  show "X \<subseteq> F0 \<union> {a ..< a2}"
  proof
    fix x assume "x \<in> X"
    then consider "x \<in> F0" | "x \<in> Y" | "x \<in> {a1 ..< a2}" using assms(1,2) by blast
    then show "x \<in> F0 \<union> {a ..< a2}"
    proof cases
      case 1
      then show ?thesis by simp
    next
      case 2
      then have "x \<in> {a ..< a1}" using assms(3) by blast
      then show ?thesis using assms(5) by simp
    next
      case 3
      then show ?thesis using assms(4) by simp
    qed
  qed
  show "a \<le> a2" using assms(4,5) by simp
qed

lemma build_items_ids:
  assumes "\<And>x a. x \<in> set xs \<Longrightarrow> ids (fst (build a x)) \<subseteq> {a ..< snd (build a x)} \<and> a \<le> snd (build a x)"
  shows "ids_items (fst (build_items a xs)) \<subseteq> {a ..< snd (build_items a xs)}
         \<and> a \<le> snd (build_items a xs)"
  using assms
proof (induction xs arbitrary: a)
  case Nil
  then show ?case by simp
next
  case (Cons x xs)
  let ?a1 = "snd (build a x)"
  have 1: "ids (fst (build a x)) \<subseteq> {a ..< ?a1} \<and> a \<le> ?a1" using Cons.prems [of x a] by simp
  have p: "\<And>x a. x \<in> set xs
             \<Longrightarrow> ids (fst (build a x)) \<subseteq> {a ..< snd (build a x)} \<and> a \<le> snd (build a x)"
    using Cons.prems by simp
  have 2: "ids_items (fst (build_items ?a1 xs)) \<subseteq> {?a1 ..< snd (build_items ?a1 xs)}
           \<and> ?a1 \<le> snd (build_items ?a1 xs)"
    using p by (rule Cons.IH)
  show ?case unfolding build_items_Cons using 1 2 by auto
qed

lemma fields_step_ids:
  "ids_fields (case map_of fs k of None \<Rightarrow> fs @ [(k, x)] | Some old \<Rightarrow> assign k (merge old x) fs)
     \<subseteq> ids_fields fs \<union> ids x"
proof (cases "map_of fs k")
  case None
  then show ?thesis by (simp add: ids_fields_append)
next
  case (Some old)
  have "ids_fields (assign k (merge old x) fs) \<subseteq> ids (merge old x) \<union> ids_fields fs"
    using ids_assign [of k "merge old x" fs] .
  moreover have "ids (merge old x) \<subseteq> ids old \<union> ids x" by (rule ids_merge)
  moreover have "ids old \<subseteq> ids_fields fs" using ids_fields_map_of [OF Some] .
  ultimately show ?thesis using Some by auto
qed

lemma build_members_ids:
  assumes "\<And>k t a. (k, t) \<in> set ms
             \<Longrightarrow> ids (fst (build a t)) \<subseteq> {a ..< snd (build a t)} \<and> a \<le> snd (build a t)"
  shows "ids_fields (fst (build_members a fs ms)) \<subseteq> ids_fields fs \<union> {a ..< snd (build_members a fs ms)}
         \<and> a \<le> snd (build_members a fs ms)"
  using assms
proof (induction ms arbitrary: a fs)
  case Nil
  then show ?case by simp
next
  case (Cons m ms)
  obtain k t where m: "m = (k, t)" by (cases m)
  let ?a1 = "snd (build a t)"
  let ?x = "fst (build a t)"
  let ?fs = "case map_of fs k of None \<Rightarrow> fs @ [(k, ?x)] | Some old \<Rightarrow> assign k (merge old ?x) fs"
  have 1: "ids ?x \<subseteq> {a ..< ?a1} \<and> a \<le> ?a1" using Cons.prems [of k t a] m by simp
  have p: "ids (fst (build a t)) \<subseteq> {a ..< snd (build a t)} \<and> a \<le> snd (build a t)"
    if "(k, t) \<in> set ms" for k t a
    using Cons.prems [of k t a] that by simp
  have 2: "ids_fields (fst (build_members ?a1 ?fs ms))
             \<subseteq> ids_fields ?fs \<union> {?a1 ..< snd (build_members ?a1 ?fs ms)}
           \<and> ?a1 \<le> snd (build_members ?a1 ?fs ms)"
    using p by (rule Cons.IH)
  have 3: "ids_fields ?fs \<subseteq> ids_fields fs \<union> ids ?x" by (rule fields_step_ids)
  show ?case unfolding m build_members_Cons
    using range_join [of _ "ids_fields ?fs" ?a1 _ "ids_fields fs" "ids ?x" a] 1 2 3 by blast
qed

lemma build_ids: "ids (fst (build a t)) \<subseteq> {a ..< snd (build a t)} \<and> a \<le> snd (build a t)"
proof (induction t arbitrary: a)
  case (TScalar v)
  then show ?case by simp
next
  case (TArray xs)
  have "ids_items (fst (build_items (Suc a) xs)) \<subseteq> {Suc a ..< snd (build_items (Suc a) xs)}
        \<and> Suc a \<le> snd (build_items (Suc a) xs)"
    using build_items_ids [of xs "Suc a"] TArray by simp
  then show ?case unfolding build_TArray by auto
next
  case (TObject ms)
  have "\<And>k t a. (k, t) \<in> set ms
          \<Longrightarrow> ids (fst (build a t)) \<subseteq> {a ..< snd (build a t)} \<and> a \<le> snd (build a t)"
    using TObject by force
  then have "ids_fields (fst (build_members (Suc a) [] ms))
               \<subseteq> ids_fields [] \<union> {Suc a ..< snd (build_members (Suc a) [] ms)}
             \<and> Suc a \<le> snd (build_members (Suc a) [] ms)"
    by (rule build_members_ids)
  then show ?case unfolding build_TObject by auto
qed

subsection \<open>The value built is the value read\<close>

lemma build_items_read:
  assumes "\<And>x a v. x \<in> set xs \<Longrightarrow> read x = Some v \<Longrightarrow> plain (fst (build a x)) = v"
    and "read_items xs = Some vs"
  shows "map plain (fst (build_items a xs)) = vs"
  using assms
proof (induction xs arbitrary: a vs)
  case Nil
  then show ?case by simp
next
  case (Cons x xs)
  obtain v ws where v: "read x = Some v" and ws: "read_items xs = Some ws" and e: "vs = v # ws"
    using Cons.prems(2) by (auto split: option.splits)
  have 1: "plain (fst (build a x)) = v" using Cons.prems(1) [of x v a] v by simp
  have p: "\<And>x a v. x \<in> set xs \<Longrightarrow> read x = Some v \<Longrightarrow> plain (fst (build a x)) = v"
    using Cons.prems(1) by simp
  have 2: "map plain (fst (build_items (snd (build a x)) xs)) = ws"
    using p ws by (rule Cons.IH)
  show ?case unfolding build_items_Cons using 1 2 e by simp
qed

lemma fields_step_plain:
  "plain_fields (case map_of fs k of None \<Rightarrow> fs @ [(k, x)] | Some old \<Rightarrow> assign k (merge old x) fs)
     = (case map_of (plain_fields fs) k of
          None \<Rightarrow> plain_fields fs @ [(k, plain x)]
        | Some old \<Rightarrow> assign k (merge old (plain x)) (plain_fields fs))"
  by (cases "map_of fs k")
     (simp_all add: plain_map_of plain_fields_simps plain_assign plain_merge)

lemma read_members_Cons:
  assumes "read_members fs ((k, t) # ms) = Some vs"
  obtains v where "ordinary_key k" and "read t = Some v"
    and "read_members (case map_of fs k of None \<Rightarrow> fs @ [(k, v)]
                                          | Some old \<Rightarrow> assign k (merge old v) fs) ms = Some vs"
    and "\<And>old. map_of fs k = Some old \<Longrightarrow> is_container old \<and> \<not> is_scalar t \<and> unrepeated t"
  using assms by (auto split: option.splits if_splits)

lemma build_members_read:
  assumes "\<And>k t a v. (k, t) \<in> set ms \<Longrightarrow> read t = Some v \<Longrightarrow> plain (fst (build a t)) = v"
    and "read_members (plain_fields fs) ms = Some vs"
  shows "plain_fields (fst (build_members a fs ms)) = vs"
  using assms
proof (induction ms arbitrary: a fs vs)
  case Nil
  then show ?case by simp
next
  case (Cons m ms)
  obtain k t where m: "m = (k, t)" by (cases m)
  let ?x = "fst (build a t)"
  let ?fs = "case map_of fs k of None \<Rightarrow> fs @ [(k, ?x)] | Some old \<Rightarrow> assign k (merge old ?x) fs"
  obtain v where v: "read t = Some v"
    and r: "read_members (case map_of (plain_fields fs) k of
                            None \<Rightarrow> plain_fields fs @ [(k, v)]
                          | Some old \<Rightarrow> assign k (merge old v) (plain_fields fs)) ms = Some vs"
    using Cons.prems(2) unfolding m by (rule read_members_Cons)
  have 1: "plain ?x = v" using Cons.prems(1) [of k t v a] v m by simp
  have p: "plain (fst (build a t)) = v" if "(k, t) \<in> set ms" and "read t = Some v" for k t a v
    using Cons.prems(1) [of k t v a] that by simp
  have "read_members (plain_fields ?fs) ms = Some vs"
    unfolding fields_step_plain 1 using r .
  with p have "plain_fields (fst (build_members (snd (build a t)) ?fs ms)) = vs"
    by (rule Cons.IH)
  then show ?case unfolding m build_members_Cons .
qed

lemma build_read: "read t = Some v \<Longrightarrow> plain (fst (build a t)) = v"
proof (induction t arbitrary: a v)
  case (TScalar s)
  then show ?case by (auto simp: plain_simps)
next
  case (TArray xs)
  obtain vs where vs: "read_items xs = Some vs" and v: "v = VArr vs"
    using TArray.prems by auto
  have "map plain (fst (build_items (Suc a) xs)) = vs"
    using build_items_read [OF _ vs] TArray.IH by simp
  then show ?case unfolding build_TArray by (simp add: plain_simps plain_fields_simps v)
next
  case (TObject ms)
  obtain vs where vs: "read_members [] ms = Some vs" and v: "v = VObj vs"
    using TObject.prems by (auto split: if_splits)
  have i: "\<And>k t a v. (k, t) \<in> set ms \<Longrightarrow> read t = Some v \<Longrightarrow> plain (fst (build a t)) = v"
    using TObject.IH by force
  have "read_members (plain_fields []) ms = Some vs" using vs by (simp add: plain_fields_simps)
  then have "plain_fields (fst (build_members (Suc a) [] ms)) = vs"
    using build_members_read [OF i] by simp
  then show ?case unfolding build_TObject by (simp add: plain_simps v)
qed

subsection \<open>The handlers on a state at work\<close>

lemma write_Cons: "parser_write (e # rest) st = then_write rest (handle e st)"
  by (simp add: then_write_def)

lemma then_write_Inr: "then_write rest (Inr st) = parser_write rest st"
  by (simp add: then_write_def)

lemma open_array:
  "handle OnOpenArray (working es d a) = Inr (working (Arr a [] [] # es) d (Suc a))"
  by (simp add: onopenarray_def)

lemma open_object:
  "ordinary_key k \<Longrightarrow>
   handle (OnOpenObject (Some k)) (working es d a)
     = Inr (working (Obj a True [(k, Prim Null)] # es) d (Suc a))"
  by (simp add: onopenobject_def ordinary_key_def assign_def)

lemma key_new:
  "ordinary_key k \<Longrightarrow> k \<notin> set (map fst fs) \<Longrightarrow>
   handle (OnKey k) (working (Obj i True fs # es) d a)
     = Inr (working (Obj i True (fs @ [(k, Prim Null)]) # es) d a)"
  by (simp add: onkey_def ordinary_key_def assign_new)

lemma key_repeated:
  "map_of fs k = Some old \<Longrightarrow>
   handle (OnKey k) (working (Obj i True fs # es) d a)
     = Inr (working (Obj i True fs # es) (Some (length es, old)) a)"
  using map_of_keys [of fs k old] by (simp add: onkey_def)

lemma marker_level: "marker_ok d u (length es) \<Longrightarrow> d = Some (level, target) \<Longrightarrow> level \<noteq> length es"
  by (auto simp: marker_ok_def)

lemma close_attach:
  assumes "marker_ok d u (length es)"
  shows "onclose (working (x # current # es) d a) = Inr (working (attach current x # es) d a)"
proof (cases d)
  case None
  then show ?thesis by (simp add: onclose_def)
next
  case (Some m)
  obtain level target where m: "m = (level, target)" by (cases m)
  have "level \<noteq> length es" using marker_level [OF assms] Some m by simp
  then show ?thesis using Some m by (simp add: onclose_def)
qed

lemma deliver_attach:
  assumes "marker_ok d u (length es)"
  shows "deliver x a' (working (current # es) d a) = Inr (working (attach current x # es) d a')"
proof (cases x)
  case (Prim v)
  then show ?thesis by (simp add: deliver_def onvalue_def)
next
  case Undefined
  then show ?thesis using close_attach [OF assms, of x current a'] by (simp add: deliver_def)
next
  case (Obj j p fs)
  then show ?thesis using close_attach [OF assms, of x current a'] by (simp add: deliver_def)
next
  case (Arr j xs ns)
  then show ?thesis using close_attach [OF assms, of x current a'] by (simp add: deliver_def)
qed

lemma attach_last:
  "k \<notin> set (map fst fs) \<Longrightarrow> attach (Obj i p (fs @ [(k, w)])) x = Obj i p (fs @ [(k, x)])"
  by (simp add: attach_def lastKey_def assign_last)

lemma attach_push: "attach (Arr i acc ns) x = Arr i (acc @ [x]) ns"
  by (simp add: attach_def)

lemma merge_at_older:
  assumes "\<forall>e \<in> set es. j \<notin> ids e"
  shows "map (merge_at j x) es = es"
  using assms by (induction es) (simp_all add: merge_at_absent(1))

lemma merge_into_fields:
  assumes "is_container old" and "separate fs" and "map_of fs k = Some old"
    and "i \<notin> ids_fields fs" and "\<forall>e \<in> set es. ids e \<inter> ids_fields fs = {}"
  shows "merge_into old x (working (Obj i p fs # es) d a)
           = working (Obj i p (assign k (merge old x) fs) # es) d a"
proof -
  have sub: "ids old \<subseteq> ids_fields fs" using ids_fields_map_of [OF assms(3)] .
  have step: "map (merge_at j x) (Obj i p fs # es) = Obj i p (assign k (merge old x) fs) # es"
    if j: "j \<in> ids old" and m: "merge_at j x old = merge old x" for j
  proof -
    have "j \<in> ids_fields fs" using j sub by auto
    then have ne: "i \<noteq> j" and o: "\<forall>e \<in> set es. j \<notin> ids e" using assms(4,5) by auto
    have 1: "map (merge_at j x) es = es" using o by (rule merge_at_older)
    have 2: "map (\<lambda>(k', v'). (k', merge_at j x v')) fs = assign k (merge old x) fs"
      using assms(2,3) j m by (rule merge_at_fields)
    show ?thesis using ne 1 2 by simp
  qed
  show ?thesis
  proof (cases old)
    case (Obj j q gs)
    then show ?thesis using step [of j] by (simp add: merge_into_def)
  next
    case (Arr j ys ms)
    then show ?thesis using step [of j] by (simp add: merge_into_def)
  qed (use assms(1) in simp_all)
qed

lemma deliver_merge:
  assumes "is_container x" and "is_container old" and "separate fs" and "map_of fs k = Some old"
    and "i \<notin> ids_fields fs" and "\<forall>e \<in> set es. ids e \<inter> ids_fields fs = {}"
  shows "deliver x a' (working (Obj i p fs # es) (Some (length es, old)) a)
           = Inr (working (Obj i p (assign k (merge old x) fs) # es) None a')"
proof -
  have "onclose (working (x # Obj i p fs # es) (Some (length es, old)) a')
          = Inr ((merge_into old x (working (Obj i p fs # es) (Some (length es, old)) a'))
                   \<lparr>duplicated := None\<rparr>)"
    by (simp add: onclose_def)
  then have "onclose (working (x # Obj i p fs # es) (Some (length es, old)) a')
          = Inr (working (Obj i p (assign k (merge old x) fs) # es) None a')"
    unfolding merge_into_fields [OF assms(2-6)] by simp
  then show ?thesis using assms(1) by (cases x) (simp_all add: deliver_def)
qed

subsection \<open>The handlers build the value read\<close>

lemma delivered_D:
  "delivered t \<Longrightarrow> read t \<noteq> None \<Longrightarrow> older es a \<Longrightarrow> marker_ok d (unrepeated t) (length es) \<Longrightarrow>
   parser_write (events_of t @ rest) (working es d a)
     = then_write rest (deliver (fst (build a t)) (snd (build a t)) (working es d a))"
  by (simp add: delivered_def)

lemma marker_weaken: "marker_ok d u n \<Longrightarrow> (u \<Longrightarrow> u') \<Longrightarrow> n \<le> n' \<Longrightarrow> marker_ok d u' n'"
  by (auto simp: marker_ok_def split: option.splits)

lemma older_top:
  "older (Obj i p fs # es) a \<longleftrightarrow> i < a \<and> (\<forall>j \<in> ids_fields fs. j < a) \<and> older es a"
  "older (Arr i xs ns # es) a
     \<longleftrightarrow> i < a \<and> (\<forall>j \<in> ids_items xs. j < a) \<and> (\<forall>j \<in> ids_fields ns. j < a) \<and> older es a"
  by (auto simp: older_def)

lemma older_mono: "older es a \<Longrightarrow> a \<le> a' \<Longrightarrow> older es a'"
  by (fastforce simp: older_def)

lemma read_members_step:
  assumes "read_members fs ((k, t) # ms) = Some vs"
  shows "\<exists>v. ordinary_key k \<and> read t = Some v
           \<and> read_members (case map_of fs k of None \<Rightarrow> fs @ [(k, v)]
                                               | Some old \<Rightarrow> assign k (merge old v) fs) ms = Some vs
           \<and> (\<forall>old. map_of fs k = Some old
                  \<longrightarrow> is_container old \<and> \<not> is_scalar t \<and> unrepeated t)"
  using assms by (auto split: option.splits if_splits)

lemma items_delivered:
  assumes "\<forall>x \<in> set xs. delivered x" and "read_items xs \<noteq> None"
    and "older (Arr i acc ns # es) a" and "marker_ok d (unrepeated_items xs) (length es)"
  shows "parser_write (events_of_items xs @ rest) (working (Arr i acc ns # es) d a)
           = parser_write rest (working (Arr i (acc @ fst (build_items a xs)) ns # es) d
                                  (snd (build_items a xs)))"
  using assms
proof (induction xs arbitrary: acc a)
  case Nil
  then show ?case by simp
next
  case (Cons x xs)
  let ?x = "fst (build a x)"
  let ?a1 = "snd (build a x)"
  have dx: "delivered x" and dxs: "\<forall>x \<in> set xs. delivered x" using Cons.prems(1) by simp_all
  have rx: "read x \<noteq> None" and rxs: "read_items xs \<noteq> None"
    using Cons.prems(2) by (auto split: option.splits)
  have m1: "marker_ok d (unrepeated x) (length (Arr i acc ns # es))"
    using Cons.prems(4) by (rule marker_weaken) simp_all
  have m0: "marker_ok d (unrepeated x) (length es)"
    using Cons.prems(4) by (rule marker_weaken) simp_all
  have ms: "marker_ok d (unrepeated_items xs) (length es)"
    using Cons.prems(4) by (rule marker_weaken) simp_all
  have b: "ids ?x \<subseteq> {a ..< ?a1} \<and> a \<le> ?a1" by (rule build_ids)
  have 1: "parser_write (events_of x @ events_of_items xs @ rest) (working (Arr i acc ns # es) d a)
             = then_write (events_of_items xs @ rest)
                 (deliver ?x ?a1 (working (Arr i acc ns # es) d a))"
    using dx rx Cons.prems(3) m1 by (rule delivered_D)
  have 2: "deliver ?x ?a1 (working (Arr i acc ns # es) d a)
             = Inr (working (Arr i (acc @ [?x]) ns # es) d ?a1)"
    using deliver_attach [OF m0, of ?x ?a1 "Arr i acc ns" a] by (simp add: attach_push)
  have o: "older (Arr i (acc @ [?x]) ns # es) ?a1"
    using Cons.prems(3) b older_mono [of es a ?a1]
    by (auto simp: older_top ids_items_append)
  have 3: "parser_write (events_of_items xs @ rest) (working (Arr i (acc @ [?x]) ns # es) d ?a1)
             = parser_write rest
                 (working (Arr i ((acc @ [?x]) @ fst (build_items ?a1 xs)) ns # es) d
                    (snd (build_items ?a1 xs)))"
    using dxs rxs o ms by (rule Cons.IH)
  show ?case unfolding build_items_Cons using 1 2 3 by (simp add: then_write_Inr)
qed

lemma members_delivered:
  assumes "\<forall>m \<in> set ms. delivered (snd m)"
    and "read_members (plain_fields fs) ms \<noteq> None"
    and "separate fs" and "\<forall>j \<in> ids_fields fs. i < j \<and> j < a" and "older es i" and "i < a"
    and "marker_ok d (\<exists>seen. set (map fst fs) \<subseteq> set seen \<and> unrepeated_members seen ms) (length es)"
  shows "parser_write (events_of_members ms @ rest) (working (Obj i True fs # es) d a)
           = parser_write rest (working (Obj i True (fst (build_members a fs ms)) # es) d
                                  (snd (build_members a fs ms)))"
  using assms
proof (induction ms arbitrary: fs a)
  case Nil
  then show ?case by simp
next
  case (Cons m ms)
  obtain k t where m: "m = (k, t)" by (cases m)
  let ?x = "fst (build a t)"
  let ?a1 = "snd (build a t)"
  let ?fs = "case map_of fs k of None \<Rightarrow> fs @ [(k, ?x)] | Some old \<Rightarrow> assign k (merge old ?x) fs"
  let ?R = "events_of_members ms @ rest"
  have dt: "delivered t" and dms: "\<forall>m \<in> set ms. delivered (snd m)"
    using Cons.prems(1) m by simp_all
  obtain vs where vs: "read_members (plain_fields fs) ((k, t) # ms) = Some vs"
    using Cons.prems(2) m by auto
  obtain v where ok: "ordinary_key k" and v: "read t = Some v"
    and r: "read_members (case map_of (plain_fields fs) k of
                            None \<Rightarrow> plain_fields fs @ [(k, v)]
                          | Some old \<Rightarrow> assign k (merge old v) (plain_fields fs)) ms = Some vs"
    and c: "\<forall>old. map_of (plain_fields fs) k = Some old
              \<longrightarrow> is_container old \<and> \<not> is_scalar t \<and> unrepeated t"
    using read_members_step [OF vs] by blast
  have rt: "read t \<noteq> None" using v by simp
  have px: "plain ?x = v" using v by (rule build_read)
  have b: "ids ?x \<subseteq> {a ..< ?a1} \<and> a \<le> ?a1" by (rule build_ids)
  have fresh: "ids ?x \<inter> ids_fields fs = {}" using b Cons.prems(4) by fastforce
  have rn: "read_members (plain_fields ?fs) ms \<noteq> None"
    unfolding fields_step_plain px using r by simp
  have bounds: "\<forall>j \<in> ids_fields ?fs. i < j \<and> j < ?a1"
  proof
    fix j assume "j \<in> ids_fields ?fs"
    then have "j \<in> ids_fields fs \<or> j \<in> ids ?x" using fields_step_ids [of fs k ?x] by auto
    then show "i < j \<and> j < ?a1" using Cons.prems(4,6) b by fastforce
  qed
  have ia: "i < ?a1" using Cons.prems(6) b by simp
  have oes: "older es a" using Cons.prems(5,6) older_mono [of es i a] by simp
  have inot: "i \<notin> ids_fields fs" using Cons.prems(4) by auto
  have apart: "\<forall>e \<in> set es. ids e \<inter> ids_fields fs = {}"
    using Cons.prems(4,5) by (fastforce simp: older_def)
  have main: "parser_write (OnKey k # events_of t @ ?R) (working (Obj i True fs # es) d a)
                = parser_write ?R (working (Obj i True ?fs # es) d ?a1)
              \<and> separate ?fs
              \<and> marker_ok d (\<exists>seen. set (map fst ?fs) \<subseteq> set seen \<and> unrepeated_members seen ms)
                  (length es)"
  proof (cases "map_of fs k")
    case None
    then have nk: "k \<notin> set (map fst fs)" by (simp add: map_of_eq_None_iff)
    have f: "?fs = fs @ [(k, ?x)]" using None by simp
    have m0: "marker_ok d (unrepeated t) (length es)"
      using Cons.prems(7) unfolding m by (rule marker_weaken) auto
    have m1: "marker_ok d (unrepeated t) (length (Obj i True (fs @ [(k, Prim Null)]) # es))"
      using m0 by (rule marker_weaken) simp_all
    have o: "older (Obj i True (fs @ [(k, Prim Null)]) # es) a"
      using Cons.prems(4,6) oes by (auto simp: older_top ids_fields_append)
    have 1: "parser_write (events_of t @ ?R) (working (Obj i True (fs @ [(k, Prim Null)]) # es) d a)
               = then_write ?R
                   (deliver ?x ?a1 (working (Obj i True (fs @ [(k, Prim Null)]) # es) d a))"
      using dt rt o m1 by (rule delivered_D)
    have 2: "deliver ?x ?a1 (working (Obj i True (fs @ [(k, Prim Null)]) # es) d a)
               = Inr (working (Obj i True (fs @ [(k, ?x)]) # es) d ?a1)"
      using deliver_attach [OF m0, of ?x ?a1 "Obj i True (fs @ [(k, Prim Null)])" a]
      by (simp add: attach_last [OF nk])
    have w: "parser_write (OnKey k # events_of t @ ?R) (working (Obj i True fs # es) d a)
               = parser_write ?R (working (Obj i True ?fs # es) d ?a1)"
      unfolding f write_Cons key_new [OF ok nk] then_write_Inr 1 2 ..
    have s: "separate ?fs" unfolding f using Cons.prems(3) nk fresh by (rule separate_append)
    have mk: "marker_ok d (\<exists>seen. set (map fst ?fs) \<subseteq> set seen \<and> unrepeated_members seen ms)
                (length es)"
      using Cons.prems(7) unfolding m f
    proof (rule marker_weaken)
      assume "\<exists>seen. set (map fst fs) \<subseteq> set seen \<and> unrepeated_members seen ((k, t) # ms)"
      then obtain seen where "set (map fst fs) \<subseteq> set seen"
        and "unrepeated_members (k # seen) ms" by auto
      then have "set (map fst (fs @ [(k, ?x)])) \<subseteq> set (k # seen)
                 \<and> unrepeated_members (k # seen) ms" by auto
      then show "\<exists>seen. set (map fst (fs @ [(k, ?x)])) \<subseteq> set seen \<and> unrepeated_members seen ms"
        by blast
    qed simp
    show ?thesis using w s mk by simp
  next
    case (Some old)
    have f: "?fs = assign k (merge old ?x) fs" using Some by simp
    have kin: "k \<in> set (map fst fs)" using Some by (rule map_of_keys)
    have "map_of (plain_fields fs) k = Some (plain old)" using Some by (simp add: plain_map_of)
    then have "is_container (plain old) \<and> \<not> is_scalar t \<and> unrepeated t" using c by simp
    then have co: "is_container old" and ns: "\<not> is_scalar t" and u: "unrepeated t"
      by (simp_all add: plain_is_container)
    have d: "d = None"
    proof (cases d)
      case None
      then show ?thesis .
    next
      case (Some lt)
      then obtain seen where "set (map fst fs) \<subseteq> set seen"
        and "unrepeated_members seen ((k, t) # ms)"
        using Cons.prems(7) unfolding m by (auto simp: marker_ok_def split: prod.splits)
      then show ?thesis using kin by auto
    qed
    have m1: "marker_ok (Some (length es, old)) (unrepeated t) (length (Obj i True fs # es))"
      using u by (simp add: marker_ok_def)
    have o: "older (Obj i True fs # es) a"
      using Cons.prems(4,6) oes by (auto simp: older_top)
    have 1: "parser_write (events_of t @ ?R) (working (Obj i True fs # es) (Some (length es, old)) a)
               = then_write ?R
                   (deliver ?x ?a1 (working (Obj i True fs # es) (Some (length es, old)) a))"
      using dt rt o m1 by (rule delivered_D)
    have cx: "is_container ?x" using ns by (rule build_container)
    have 2: "deliver ?x ?a1 (working (Obj i True fs # es) (Some (length es, old)) a)
               = Inr (working (Obj i True (assign k (merge old ?x) fs) # es) None ?a1)"
      using cx co Cons.prems(3) Some inot apart by (rule deliver_merge)
    have w: "parser_write (OnKey k # events_of t @ ?R) (working (Obj i True fs # es) d a)
               = parser_write ?R (working (Obj i True ?fs # es) d ?a1)"
      unfolding f d write_Cons key_repeated [OF Some] then_write_Inr 1 2 ..
    have "ids (merge old ?x) \<subseteq> ids old \<union> ids ?x" by (rule ids_merge)
    moreover have "ids ?x \<inter> ids_fields fs = {}" by (rule fresh)
    ultimately have s: "separate ?fs"
      unfolding f using Cons.prems(3) Some by (intro separate_assign [of fs k old _ "ids ?x"])
    have mk: "marker_ok d (\<exists>seen. set (map fst ?fs) \<subseteq> set seen \<and> unrepeated_members seen ms)
                (length es)"
      unfolding d by (simp add: marker_ok_def)
    show ?thesis using w s mk by simp
  qed
  have ih: "parser_write ?R (working (Obj i True ?fs # es) d ?a1)
              = parser_write rest (working (Obj i True (fst (build_members ?a1 ?fs ms)) # es) d
                                     (snd (build_members ?a1 ?fs ms)))"
    using dms rn _ bounds Cons.prems(5) ia _
  proof (rule Cons.IH)
    show "separate ?fs" using main by simp
    show "marker_ok d (\<exists>seen. set (map fst ?fs) \<subseteq> set seen \<and> unrepeated_members seen ms)
            (length es)"
      using main by simp
  qed
  have "parser_write (events_of_members ((k, t) # ms) @ rest) (working (Obj i True fs # es) d a)
          = parser_write (OnKey k # events_of t @ ?R) (working (Obj i True fs # es) d a)"
    by simp
  also have "\<dots> = parser_write ?R (working (Obj i True ?fs # es) d ?a1)" using main by simp
  also have "\<dots> = parser_write rest (working (Obj i True (fst (build_members ?a1 ?fs ms)) # es) d
                                     (snd (build_members ?a1 ?fs ms)))"
    by (rule ih)
  finally show ?case unfolding m build_members_Cons .
qed

lemma value_delivered: "delivered t"
proof (induction t)
  case (TScalar v)
  show ?case by (simp add: delivered_def deliver_def then_write_def)
next
  case (TArray xs)
  show ?case unfolding delivered_def
  proof (intro allI impI)
    fix es d a rest
    assume r: "read (TArray xs) \<noteq> None" and o: "older es a"
      and m: "marker_ok d (unrepeated (TArray xs)) (length es)"
    let ?vs = "fst (build_items (Suc a) xs)"
    let ?a' = "snd (build_items (Suc a) xs)"
    have dx: "\<forall>x \<in> set xs. delivered x" using TArray by simp
    have ri: "read_items xs \<noteq> None" using r by auto
    have o': "older (Arr a [] [] # es) (Suc a)"
      using older_mono [OF o, of "Suc a"] by (simp add: older_top)
    have mi: "marker_ok d (unrepeated_items xs) (length es)" using m by simp
    have 1: "parser_write (events_of_items xs @ OnCloseArray # rest)
               (working (Arr a [] [] # es) d (Suc a))
             = parser_write (OnCloseArray # rest) (working (Arr a ([] @ ?vs) [] # es) d ?a')"
      using dx ri o' mi by (rule items_delivered)
    have 2: "deliver (Arr a ?vs []) ?a' (working es d a)
               = onclose (working (Arr a ?vs [] # es) d ?a')"
      by (simp add: deliver_def)
    have "parser_write (events_of (TArray xs) @ rest) (working es d a)
            = parser_write (OnOpenArray # events_of_items xs @ OnCloseArray # rest) (working es d a)"
      by simp
    also have "\<dots> = parser_write (OnCloseArray # rest) (working (Arr a ?vs [] # es) d ?a')"
      unfolding write_Cons [of OnOpenArray] open_array then_write_Inr 1 by simp
    also have "\<dots> = then_write rest (deliver (Arr a ?vs []) ?a' (working es d a))"
      unfolding write_Cons 2 by simp
    finally show "parser_write (events_of (TArray xs) @ rest) (working es d a)
                    = then_write rest (deliver (fst (build a (TArray xs))) (snd (build a (TArray xs)))
                                         (working es d a))"
      unfolding build_TArray by simp
  qed
next
  case (TObject members)
  show ?case unfolding delivered_def
  proof (intro allI impI)
    fix es d a rest
    assume r: "read (TObject members) \<noteq> None" and o: "older es a"
      and m: "marker_ok d (unrepeated (TObject members)) (length es)"
    obtain k t ms where ms: "members = (k, t) # ms"
      using r by (cases members) auto
    obtain vs where vs: "read_members [] ((k, t) # ms) = Some vs" using r ms by auto
    obtain v where ok: "ordinary_key k" and v: "read t = Some v"
      and rm: "read_members [(k, v)] ms = Some vs"
      using read_members_step [OF vs] by auto
    let ?x = "fst (build (Suc a) t)"
    let ?a1 = "snd (build (Suc a) t)"
    let ?fs = "fst (build_members ?a1 [(k, ?x)] ms)"
    let ?a' = "snd (build_members ?a1 [(k, ?x)] ms)"
    let ?R = "events_of_members ms @ OnCloseObject # rest"
    have da: "delivered y" if "(x, y) \<in> set members" for x y
      using TObject [of "(x, y)" y] that by simp
    have dt: "delivered t" using da [of k t] ms by simp
    have dms: "\<forall>m \<in> set ms. delivered (snd m)"
    proof
      fix m assume "m \<in> set ms"
      then have "(fst m, snd m) \<in> set members" using ms by simp
      then show "delivered (snd m)" by (rule da)
    qed
    have rt: "read t \<noteq> None" using v by simp
    have px: "plain ?x = v" using v by (rule build_read)
    have b: "ids ?x \<subseteq> {Suc a ..< ?a1} \<and> Suc a \<le> ?a1" by (rule build_ids)
    have o1: "older (Obj a True [(k, Prim Null)] # es) (Suc a)"
      using older_mono [OF o, of "Suc a"] by (simp add: older_top)
    have m0: "marker_ok d (unrepeated t) (length es)"
      using m unfolding ms by (rule marker_weaken) simp_all
    have m1: "marker_ok d (unrepeated t) (length (Obj a True [(k, Prim Null)] # es))"
      using m0 by (rule marker_weaken) simp_all
    have 1: "parser_write (events_of t @ ?R) (working (Obj a True [(k, Prim Null)] # es) d (Suc a))
               = then_write ?R
                   (deliver ?x ?a1 (working (Obj a True [(k, Prim Null)] # es) d (Suc a)))"
      using dt rt o1 m1 by (rule delivered_D)
    have 2: "deliver ?x ?a1 (working (Obj a True [(k, Prim Null)] # es) d (Suc a))
               = Inr (working (Obj a True [(k, ?x)] # es) d ?a1)"
      using deliver_attach [OF m0, of ?x ?a1 "Obj a True [(k, Prim Null)]" "Suc a"]
            attach_last [of k "[]" a True "Prim Null" ?x]
      by simp
    have rn: "read_members (plain_fields [(k, ?x)]) ms \<noteq> None"
      using rm px by (simp add: plain_fields_simps)
    have sep: "separate [(k, ?x)]" by simp
    have bounds: "\<forall>j \<in> ids_fields [(k, ?x)]. a < j \<and> j < ?a1" using b by fastforce
    have ia: "a < ?a1" using b by simp
    have mk: "marker_ok d (\<exists>seen. set (map fst [(k, ?x)]) \<subseteq> set seen \<and> unrepeated_members seen ms)
                (length es)"
      using m unfolding ms
    proof (rule marker_weaken)
      assume "unrepeated (TObject ((k, t) # ms))"
      then have "set (map fst [(k, ?x)]) \<subseteq> set [k] \<and> unrepeated_members [k] ms" by simp
      then show "\<exists>seen. set (map fst [(k, ?x)]) \<subseteq> set seen \<and> unrepeated_members seen ms"
        by blast
    qed simp
    have 3: "parser_write ?R (working (Obj a True [(k, ?x)] # es) d ?a1)
               = parser_write (OnCloseObject # rest) (working (Obj a True ?fs # es) d ?a')"
      using dms rn sep bounds o ia mk by (rule members_delivered)
    have 4: "deliver (Obj a True ?fs) ?a' (working es d a)
               = onclose (working (Obj a True ?fs # es) d ?a')"
      by (simp add: deliver_def)
    have bm: "build a (TObject ((k, t) # ms)) = (Obj a True ?fs, ?a')"
      unfolding build_TObject build_members_Cons by simp
    have "parser_write (events_of (TObject ((k, t) # ms)) @ rest) (working es d a)
            = parser_write (OnOpenObject (Some k) # events_of t @ ?R) (working es d a)"
      by simp
    also have "\<dots> = parser_write (OnCloseObject # rest) (working (Obj a True ?fs # es) d ?a')"
      unfolding write_Cons [of "OnOpenObject (Some k)"] open_object [OF ok] then_write_Inr 1 2 3 ..
    also have "\<dots> = then_write rest (deliver (Obj a True ?fs) ?a' (working es d a))"
      unfolding write_Cons 4 by simp
    finally show "parser_write (events_of (TObject members) @ rest) (working es d a)
                    = then_write rest (deliver (fst (build a (TObject members)))
                                         (snd (build a (TObject members))) (working es d a))"
      unfolding ms bm by simp
  qed
qed

lemma parseJson_build:
  assumes "read t \<noteq> None" and "\<not> is_scalar t"
  shows "parseJson t = Inr (unwrap (Some (fst (build 0 t))))"
proof -
  let ?x = "fst (build 0 t)"
  let ?a = "snd (build 0 t)"
  have c: "is_container ?x" using assms(2) by (rule build_container)
  have "parser_write (events_of t @ []) (working [] None 0)
          = then_write [] (deliver ?x ?a (working [] None 0))"
    using value_delivered assms(1) by (rule delivered_D) (simp_all add: older_def marker_ok_def)
  moreover have "deliver ?x ?a (working [] None 0)
                   = Inr \<lparr>elements = [], root = Some ?x, duplicated = None, allocated = ?a\<rparr>"
    using c by (cases ?x) (simp_all add: deliver_def onclose_def)
  ultimately have "parser_write (events_of t) initial_state
                     = Inr \<lparr>elements = [], root = Some ?x, duplicated = None, allocated = ?a\<rparr>"
    by (simp add: initial_state_def then_write_def)
  moreover have "clarinet t = Inr (events_of t)" using assms(2) by (cases t) (simp_all add: clarinet_def)
  ultimately show ?thesis by (simp add: parseJson_def)
qed

text \<open>
  C6, as the code has it: the marker of \<open>parseJson\<close> stores an object or an array
  found under a repeated key and serves the next container that closes at that
  level. For every JSON text that is an array or an object and that \<open>read\<close>
  reads (every key an ordinary name, no object empty, a key repeated only where
  the value read so far for it and the later value are arrays or objects and the
  later value has no repeated key inside), the parser returns the value read: each
  key once, at the place of its first occurrence, with the single value that
  \<open>_.merge\<close> makes of the values of its occurrences in their order (objects
  merged deeply, arrays element by element at the same index, a scalar of the
  later occurrence overwriting), every other member as written, and an array as
  root replaced by its first item.
\<close>

theorem duplicate_key_merge:
  assumes "read t = Some v" and "\<not> is_scalar t"
  shows "parsed t = Inr (unwrap (Some v))"
proof -
  have "parseJson t = Inr (unwrap (Some (fst (build 0 t))))"
    using assms by (intro parseJson_build) simp_all
  moreover have "plain (fst (build 0 t)) = v" using assms(1) by (rule build_read)
  ultimately show ?thesis
    using plain_unwrap [of "Some (fst (build 0 t))"] by (simp add: parsed_def)
qed

text \<open>
  The theorem at a \<open>Sort\<close> node in the array that \<open>EXPLAIN (FORMAT JSON)\<close>
  prints, with the key \<open>Workers\<close> three times: the arrays are merged index by
  index, the workers of the same index deeply, the later \<open>Actual Rows\<close> of the
  first worker overwrites, and the third worker comes from the second occurrence
  alone.
\<close>

theorem duplicate_key_merge_witness:
  "read sort_node = Some (VArr [VObj [(''Plan'', merged_sort)]])
   \<and> \<not> is_scalar sort_node
   \<and> parsed sort_node = Inr (Some (VObj [(''Plan'', merged_sort)]))"
proof -
  have r: "read sort_node = Some (VArr [VObj [(''Plan'', merged_sort)]])" by code_simp
  have n: "\<not> is_scalar sort_node" by (simp add: sort_node_def)
  show ?thesis using duplicate_key_merge [OF r n] r n by (simp add: unwrap_def)
qed

text \<open>
  In \<open>{"a": 1, "b": 2, "a": 3}\<close> the second \<open>a\<close> sets the marker, and the value 3
  goes to the last key of the object, which is \<open>b\<close>: no value of \<open>a\<close> is
  overwritten by the later occurrence, and \<open>b\<close> loses its own.
\<close>

theorem duplicate_scalar_counterexample:
  "parsed repeated_scalar
     = Inr (Some (VObj [(''a'', Prim (Number 1)), (''b'', Prim (Number 3))]))
   \<and> parsed repeated_scalar
     \<noteq> Inr (Some (VObj [(''a'', Prim (Number 3)), (''b'', Prim (Number 2))]))"
  by code_simp

subsection \<open>At the borders of the reading\<close>

text \<open>
  A later value with a repeated key inside: the inner repetition takes the one
  marker there is, the outer value is attached instead of merged, and the first
  \<open>w\<close> with its \<open>x\<close> is lost.
\<close>

lemma later_value_with_repeated_key:
  "parsed repeated_inside_later
     = Inr (Some (VObj [(''w'', VObj [(''a'', VObj [(''p'', Prim (Number 1)),
                                                    (''q'', Prim (Number 1))])])]))"
  by code_simp

text \<open>
  A scalar first and an object later: \<open>_.merge\<close> is given the number, which it
  cannot change, and the later object is lost.
\<close>

lemma scalar_before_container:
  "parsed scalar_then_object = Inr (Some (VObj [(''a'', Prim (Number 1))]))"
  by code_simp

text \<open>
  An empty object: clarinet opens it without a key, the handler writes the
  property \<open>undefined\<close>, and the merge brings it along.
\<close>

lemma empty_object_value:
  "parsed empty_later
     = Inr (Some (VObj [(''a'', VObj [(''x'', Prim (Number 1)), (''undefined'', Prim Null)])]))"
  by code_simp

text \<open>
  A key that is an array index is enumerated before the other names, so it is
  not the last key when its value arrives; and the first key \<open>__proto__\<close> makes
  no property at all.
\<close>

lemma index_and_proto_keys:
  "parsed index_key = Inr (Some (VObj [(''0'', Prim Null), (''b'', Prim (Number 2))]))
   \<and> parsed proto_first
       = Inr (Some (Obj () False [(''undefined'', Prim (Number 1)), (''a'', Prim (Number 2))]))"
  by code_simp

text \<open>A text that is a scalar alone is rejected by clarinet.\<close>

lemma top_level_scalar: "parsed (TScalar v) = Inl SyntaxError"
  by (simp add: parsed_def parseJson_def clarinet_def)


section \<open>Properties of the source cleanup\<close>



































section \<open>The claims about the text parser\<close>

text \<open>
  C9 at its failing input. With the estimate before it, \<open>(never executed)\<close> is
  group 13 of the node pattern and the node gets loops, rows and total time 0.
  Without an estimate the line matches the third alternative of the pattern,
  where \<open>never executed\<close> is group 24; the source reads group 13 only, and the
  node gets none of the three properties.
\<close>

theorem never_executed_without_estimate:
  "plan_properties (fromText hst never_executed_line)
       [ACTUAL_LOOPS_name, ACTUAL_ROWS_name, ACTUAL_TOTAL_TIME_name]
     = Some [Some (TNum (Num 0)), Some (TNum (Num 0)), Some (TNum (Num 0))]
   \<and> map_option (\<lambda>r. (group_opt (snd r) 13, group_opt (snd r) 24))
         (exec True nodeRegex (utf16 ''Index Scan using i on t (never executed)''))
     = Some (None, Some (utf16 ''never executed''))
   \<and> plan_properties (fromText hst never_executed_costs_off)
       [NODE_TYPE, ACTUAL_LOOPS_name, ACTUAL_ROWS_name, ACTUAL_TOTAL_TIME_name]
     = Some [Some (TStr (utf16 ''Index Scan using i on t'')), None, None, None]"
  by code_simp

text \<open>
  C7 at its failing input. A text without a node line fails with the parse
  failure and a single node line gives a plan. A second node line that is not
  indented deeper than the first empties the stack, and reading the element
  before it raises a TypeError: a node line has matched, and neither a plan nor
  the parse failure comes back.
\<close>

theorem node_line_type_error:
  "fromText hst no_node = Inl ParseFailure
   \<and> plan_properties (fromText hst one_node) [NODE_TYPE]
     = Some [Some (TStr (utf16 ''Seq Scan on a''))]
   \<and> fromText hst two_nodes_same_depth = Inl TypeError"
  by code_simp

end
